theory Spec2Isabelle
  imports Complex_Main "HOL-Library.AList" "HOL-Library.Log_Nat"
begin

section \<open>Krakefaction: rarefaction data from Kraken output\<close>

text \<open>
  A shallow embedding of \<^verbatim>\<open>src/krakefaction/Krakefaction.py\<close>.

  Conventions of the model:
  \<^item> A Python float is a value of the type \<open>pyfloat\<close>: a finite double, given by the
    rational number it denotes, an infinity or NaN. An operation on floats computes the
    exact result and rounds it to the nearest double, a tie to the even mantissa, and to
    an infinity beyond the largest double (IEEE 754 binary64, which Python uses). The two
    zeros are one value.
  \<^item> A Python integer is an \<^typ>\<open>int\<close>.
  \<^item> A text file is the list of the lines that iterating over it yields (each line with
    its line terminator). The file system is a map from locations to files.
  \<^item> The global generator behind \<^verbatim>\<open>random.random()\<close> is the sequence of the values
    it returns (finite floats, as rationals), \<open>random k\<close> being the value of call number
    \<open>k\<close>; the number of calls made so far is part of the state.
  \<^item> A Python dictionary is an association list in insertion order with one entry per
    key; \<^verbatim>\<open>len\<close> is its length.
  \<^item> An exception is a value \<open>Inl e\<close> of the result type.
\<close>

subsection \<open>Python floats\<close>

datatype pyfloat = Finite rat | PInf | NInf | NaN

text \<open>The comparisons of floats: every comparison with NaN is false.\<close>

instantiation pyfloat :: ord
begin

fun less_eq_pyfloat :: "pyfloat \<Rightarrow> pyfloat \<Rightarrow> bool" where
  "less_eq_pyfloat NaN b = False"
| "less_eq_pyfloat a NaN = False"
| "less_eq_pyfloat NInf b = True"
| "less_eq_pyfloat a PInf = True"
| "less_eq_pyfloat (Finite x) (Finite y) = (x \<le> y)"
| "less_eq_pyfloat a b = False"

fun less_pyfloat :: "pyfloat \<Rightarrow> pyfloat \<Rightarrow> bool" where
  "less_pyfloat NaN b = False"
| "less_pyfloat a NaN = False"
| "less_pyfloat (Finite x) (Finite y) = (x < y)"
| "less_pyfloat a NInf = False"
| "less_pyfloat PInf b = False"
| "less_pyfloat a b = True"

instance ..

end

text \<open>
  The binary logarithm of a positive rational, rounded down: with \<open>bitlen\<close> the number
  of binary digits, the quotient \<open>p / q\<close> lies between \<open>2 powi (k - 1)\<close> and
  \<open>2 powi (k + 1)\<close> for \<open>k = bitlen p - bitlen q\<close>.
\<close>

definition ilog2 :: "rat \<Rightarrow> int" where
  "ilog2 x =
     (case quotient_of x of
        (p, q) \<Rightarrow> (let k = bitlen p - bitlen q in if 2 powi k \<le> x then k else k - 1))"

text \<open>Rounding to the nearest integer, a tie to the even one.\<close>

definition roundHalfEven :: "rat \<Rightarrow> int" where
  "roundHalfEven t =
     (let f = \<lfloor>t\<rfloor>; d = t - of_int f in
      if d < 1 / 2 then f
      else if 1 / 2 < d then f + 1
      else if even f then f else f + 1)"

text \<open>
  A double has a mantissa of 53 binary digits and an exponent that is at least -1074
  for the last digit (below \<open>2 powi (- 1022)\<close> the doubles are subnormal).
  \<open>roundValue x\<close> is the multiple of \<open>2 powi exponentOf \<bar>x\<bar>\<close> nearest to \<open>x\<close>;
  \<open>round64 x\<close> is the float that \<open>x\<close> rounds to, an infinity when the rounded value
  is \<open>2 powi 1024\<close> or more in absolute value.
\<close>

definition exponentOf :: "rat \<Rightarrow> int" where
  "exponentOf x = max (ilog2 x - 52) (- 1074)"

definition roundValue :: "rat \<Rightarrow> rat" where
  "roundValue x =
     (if x = 0 then 0
      else (let e = exponentOf \<bar>x\<bar> in
            sgn x * of_int (roundHalfEven (\<bar>x\<bar> / 2 powi e)) * 2 powi e))"

definition round64 :: "rat \<Rightarrow> pyfloat" where
  "round64 x =
     (let v = roundValue x in
      if v = 0 then Finite 0
      else if 1024 \<le> ilog2 \<bar>v\<bar> then (if 0 < v then PInf else NInf)
      else Finite v)"

subsection \<open>Errors\<close>

text \<open>
  \<open>CouldNotOpenInput\<close> and \<open>RateNotInRange\<close> are the two \<^verbatim>\<open>RuntimeError\<close>s that
  \<^verbatim>\<open>run\<close> raises itself (with the location and the rate of their messages); the
  others are Python's own exceptions.
\<close>

datatype error =
    CouldNotOpenInput string
  | RateNotInRange pyfloat
  | IndexError
  | OverflowError
  | ValueError
  | ZeroDivisionError

subsection \<open>Python arithmetic\<close>

text \<open>\<^verbatim>\<open>1 / x\<close> for a float \<open>x\<close>: the integer 1 is converted to 1.0.\<close>

fun oneOver :: "pyfloat \<Rightarrow> error + pyfloat" where
  "oneOver (Finite x) = (if x = 0 then Inl ZeroDivisionError else Inr (round64 (1 / x)))"
| "oneOver PInf = Inr (Finite 0)"
| "oneOver NInf = Inr (Finite 0)"
| "oneOver NaN = Inr NaN"

text \<open>\<^verbatim>\<open>int(x)\<close> for a float \<open>x\<close>: the digits after the point are dropped.\<close>

fun intOfFloat :: "pyfloat \<Rightarrow> error + int" where
  "intOfFloat (Finite x) = Inr (if 0 \<le> x then \<lfloor>x\<rfloor> else \<lceil>x\<rceil>)"
| "intOfFloat PInf = Inl OverflowError"
| "intOfFloat NInf = Inl OverflowError"
| "intOfFloat NaN = Inl ValueError"

text \<open>
  \<^verbatim>\<open>i * x\<close> for an integer \<open>i\<close> and a float \<open>x\<close>: the integer is converted to
  the nearest double (\<open>OverflowError\<close> when it is too large) and the floats are
  multiplied.
\<close>

fun timesFloat :: "rat \<Rightarrow> pyfloat \<Rightarrow> pyfloat" where
  "timesFloat a (Finite x) = round64 (a * x)"
| "timesFloat a PInf = (if a = 0 then NaN else if 0 < a then PInf else NInf)"
| "timesFloat a NInf = (if a = 0 then NaN else if 0 < a then NInf else PInf)"
| "timesFloat a NaN = NaN"

definition intTimesFloat :: "int \<Rightarrow> pyfloat \<Rightarrow> error + pyfloat" where
  "intTimesFloat i x =
     (case round64 (of_int i) of
        Finite a \<Rightarrow> Inr (timesFloat a x)
      | _ \<Rightarrow> Inl OverflowError)"

subsection \<open>Globals\<close>

definition CLASSIFIED :: string where
  "CLASSIFIED = ''C''"

text \<open>The float of the literal \<^verbatim>\<open>0.05\<close> is the double nearest to 5/100.\<close>

definition DEFAULT_RATE :: pyfloat where
  "DEFAULT_RATE = round64 (5 / 100)"

text \<open>The class constants of \<^verbatim>\<open>Sample\<close>.\<close>

definition DOMAIN :: string where "DOMAIN = ''d''"
definition PHYLUM :: string where "PHYLUM = ''p''"
definition CLASS :: string where "CLASS = ''c''"
definition ORDER :: string where "ORDER = ''o''"
definition FAMILY :: string where "FAMILY = ''f''"
definition GENERA :: string where "GENERA = ''g''"
definition SPECIES :: string where "SPECIES = ''s''"
definition SUBSPECIES :: string where "SUBSPECIES = ''s1''"

definition KRAKEN_SEPARATOR :: string where
  "KRAKEN_SEPARATOR = ''__''"

subsection \<open>Python string operations\<close>

text \<open>The ASCII characters for which \<^verbatim>\<open>str.isspace\<close> holds.\<close>

definition isspace :: "char \<Rightarrow> bool" where
  "isspace c \<longleftrightarrow> c \<in> set [CHR 0x09, CHR 0x0A, CHR 0x0B, CHR 0x0C, CHR 0x0D,
                            CHR 0x1C, CHR 0x1D, CHR 0x1E, CHR 0x1F, CHR 0x20]"

text \<open>\<^verbatim>\<open>s.strip()\<close>\<close>

definition strip :: "string \<Rightarrow> string" where
  "strip s = rev (dropWhile isspace (rev (dropWhile isspace s)))"

text \<open>
  \<^verbatim>\<open>s.split()\<close>: the maximal runs of non-blank characters. \<open>cur\<close> is the token
  being read.
\<close>

fun splitFrom :: "string \<Rightarrow> string \<Rightarrow> string list" where
  "splitFrom cur [] = (if cur = [] then [] else [cur])"
| "splitFrom cur (c # cs) =
     (if isspace c then (if cur = [] then splitFrom [] cs else cur # splitFrom [] cs)
      else splitFrom (cur @ [c]) cs)"

definition split :: "string \<Rightarrow> string list" where
  "split s = splitFrom [] s"

text \<open>\<^verbatim>\<open>s.split(sep)\<close> for a separator of one character: empty fields are kept.\<close>

fun splitOnFrom :: "char \<Rightarrow> string \<Rightarrow> string \<Rightarrow> string list" where
  "splitOnFrom sep cur [] = [cur]"
| "splitOnFrom sep cur (c # cs) =
     (if c = sep then cur # splitOnFrom sep [] cs else splitOnFrom sep (cur @ [c]) cs)"

definition splitOn :: "char \<Rightarrow> string \<Rightarrow> string list" where
  "splitOn sep s = splitOnFrom sep [] s"

text \<open>\<^verbatim>\<open>s.startswith(p)\<close>\<close>

definition startswith :: "string \<Rightarrow> string \<Rightarrow> bool" where
  "startswith s p \<longleftrightarrow> take (length p) s = p"

subsection \<open>Sample\<close>

type_synonym dictionary = "(string \<times> int) list"

record Sample =
  rate :: pyfloat
  numberOfReads :: int
  domainDictionary :: dictionary
  phylumDictionary :: dictionary
  classDictionary :: dictionary
  orderDictionary :: dictionary
  familyDictionary :: dictionary
  generaDictionary :: dictionary
  speciesDictionary :: dictionary
  subspeciesDictionary :: dictionary

text \<open>\<^verbatim>\<open>Sample.__init__\<close>\<close>

definition newSample :: "pyfloat \<Rightarrow> Sample" where
  "newSample r =
     \<lparr>rate = r, numberOfReads = 0,
      domainDictionary = [], phylumDictionary = [], classDictionary = [],
      orderDictionary = [], familyDictionary = [], generaDictionary = [],
      speciesDictionary = [], subspeciesDictionary = []\<rparr>"

text \<open>
  \<^verbatim>\<open>Sample.updateDictionary\<close>: a rank that starts with the label and the separator
  is counted, with a new entry of count 1 when it is not yet a key.
\<close>

fun updateDictionary :: "dictionary \<Rightarrow> string list \<Rightarrow> string \<Rightarrow> dictionary" where
  "updateDictionary dictionary [] label = dictionary"
| "updateDictionary dictionary (rank # rankings) label =
     updateDictionary
       (if startswith rank (label @ KRAKEN_SEPARATOR) then
          (case map_of dictionary rank of
             Some n \<Rightarrow> AList.update rank (n + 1) dictionary
           | None \<Rightarrow> AList.update rank 1 dictionary)
        else dictionary)
       rankings label"

text \<open>\<^verbatim>\<open>Sample.updateDictionaries\<close>\<close>

definition updateDictionaries :: "Sample \<Rightarrow> string list \<Rightarrow> Sample" where
  "updateDictionaries s rankings =
     s\<lparr>domainDictionary := updateDictionary (domainDictionary s) rankings DOMAIN,
       phylumDictionary := updateDictionary (phylumDictionary s) rankings PHYLUM,
       classDictionary := updateDictionary (classDictionary s) rankings CLASS,
       orderDictionary := updateDictionary (orderDictionary s) rankings ORDER,
       familyDictionary := updateDictionary (familyDictionary s) rankings FAMILY,
       generaDictionary := updateDictionary (generaDictionary s) rankings GENERA,
       speciesDictionary := updateDictionary (speciesDictionary s) rankings SPECIES,
       subspeciesDictionary := updateDictionary (subspeciesDictionary s) rankings SUBSPECIES\<rparr>"

subsection \<open>generateRarefaction\<close>

text \<open>
  The state of the pass: the samples, the number of lines read from the translated file
  and the number of calls of \<^verbatim>\<open>random.random()\<close>.
\<close>

record engine =
  samples :: "Sample list"
  translatedPos :: nat
  drawn :: nat

text \<open>\<^verbatim>\<open>translatedFile.readline()\<close> at a position: the empty string at the end of the file.\<close>

definition readline :: "string list \<Rightarrow> nat \<Rightarrow> string" where
  "readline file pos = (if pos < length file then file ! pos else [])"

text \<open>
  Lines 331 to 335: the translated line is tokenized, \<^verbatim>\<open>tokens[0]\<close> and
  \<^verbatim>\<open>tokens[1]\<close> are read (each raises \<open>IndexError\<close> when the token is missing) and
  the classification is split at \<^verbatim>\<open>|\<close>.
\<close>

definition tokenize :: "string \<Rightarrow> error + string list" where
  "tokenize translatedLine =
     (let tokens = split (strip translatedLine) in
      if length tokens \<le> 0 then Inl IndexError
      else if length tokens \<le> 1 then Inl IndexError
      else Inr (splitOn (CHR ''|'') (strip (tokens ! 1))))"

text \<open>
  The test of line 342, and the body of the loop over the samples (lines 342 to 349)
  for one sample. The rankings are \<open>Some\<close> for a classified read; for another read
  the source does not look at them.
\<close>

definition included :: "rat \<Rightarrow> Sample \<Rightarrow> bool" where
  "included number s \<longleftrightarrow> Finite number \<le> rate s"

definition operate :: "rat \<Rightarrow> string list option \<Rightarrow> Sample \<Rightarrow> Sample" where
  "operate number rankings s =
     (if included number s then
        (let s' = s\<lparr>numberOfReads := numberOfReads s + 1\<rparr> in
         case rankings of
           Some rs \<Rightarrow> updateDictionaries s' rs
         | None \<Rightarrow> s')
      else s)"

text \<open>
  One iteration of the loop over the untranslated file (lines 316 to 349). The samples
  are separate objects, so the loop over the indices is a \<open>map\<close>.
\<close>

definition readStep :: "(nat \<Rightarrow> rat) \<Rightarrow> string list \<Rightarrow> engine \<Rightarrow> string \<Rightarrow> error + engine" where
  "readStep random translatedFile st untranslatedLine =
     (let number = random (drawn st) in
      case untranslatedLine of
        [] \<Rightarrow> Inl IndexError
      | c # _ \<Rightarrow>
          if [c] = CLASSIFIED then
            (case tokenize (readline translatedFile (translatedPos st)) of
               Inl e \<Rightarrow> Inl e
             | Inr rankings \<Rightarrow>
                 Inr \<lparr>samples = map (operate number (Some rankings)) (samples st),
                      translatedPos = translatedPos st + 1,
                      drawn = drawn st + 1\<rparr>)
          else
            Inr \<lparr>samples = map (operate number None) (samples st),
                 translatedPos = translatedPos st,
                 drawn = drawn st + 1\<rparr>)"

fun readLoop :: "(nat \<Rightarrow> rat) \<Rightarrow> string list \<Rightarrow> engine \<Rightarrow> string list \<Rightarrow> error + engine" where
  "readLoop random translatedFile st [] = Inr st"
| "readLoop random translatedFile st (untranslatedLine # rest) =
     (case readStep random translatedFile st untranslatedLine of
        Inl e \<Rightarrow> Inl e
      | Inr st' \<Rightarrow> readLoop random translatedFile st' rest)"

definition generateRarefaction ::
  "(nat \<Rightarrow> rat) \<Rightarrow> string list \<Rightarrow> string list \<Rightarrow> Sample list \<Rightarrow> error + engine" where
  "generateRarefaction random untranslatedFile translatedFile ss =
     readLoop random translatedFile \<lparr>samples = ss, translatedPos = 0, drawn = 0\<rparr> untranslatedFile"

subsection \<open>writeResults\<close>

text \<open>
  A row of the output is its heading and its values, a rate or a count each. The text of
  a value (\<^verbatim>\<open>str\<close>) and the commas between the values are not modelled.
\<close>

datatype cell = RateCell pyfloat | CountCell int

type_synonym row = "string \<times> cell list"

text \<open>\<^verbatim>\<open>xs[i]\<close> for a Python list: a negative index counts from the end.\<close>

definition subscript :: "'a list \<Rightarrow> int \<Rightarrow> error + 'a" where
  "subscript xs i =
     (if 0 \<le> i \<and> i < int (length xs) then Inr (xs ! nat i)
      else if i < 0 \<and> - int (length xs) \<le> i then Inr (xs ! nat (int (length xs) + i))
      else Inl IndexError)"

text \<open>
  One of the ten blocks of \<^verbatim>\<open>writeResults\<close>: the values of the samples before the last
  one, then the value of \<^verbatim>\<open>samples[last]\<close>.
\<close>

definition writeRow :: "string \<Rightarrow> (Sample \<Rightarrow> cell) \<Rightarrow> Sample list \<Rightarrow> error + row" where
  "writeRow heading f ss =
     (let last = int (length ss) - 1 in
      case subscript ss last of
        Inl e \<Rightarrow> Inl e
      | Inr s \<Rightarrow> Inr (heading, map f (take (length ss - 1) ss) @ [f s]))"

text \<open>The ten blocks, in the order of the source.\<close>

definition blocks :: "(string \<times> (Sample \<Rightarrow> cell)) list" where
  "blocks =
     [(''rates'', \<lambda>s. RateCell (rate s)),
      (''reads'', \<lambda>s. CountCell (numberOfReads s)),
      (''domains'', \<lambda>s. CountCell (int (length (domainDictionary s)))),
      (''phylums'', \<lambda>s. CountCell (int (length (phylumDictionary s)))),
      (''classes'', \<lambda>s. CountCell (int (length (classDictionary s)))),
      (''orders'', \<lambda>s. CountCell (int (length (orderDictionary s)))),
      (''families'', \<lambda>s. CountCell (int (length (familyDictionary s)))),
      (''genera'', \<lambda>s. CountCell (int (length (generaDictionary s)))),
      (''species'', \<lambda>s. CountCell (int (length (speciesDictionary s)))),
      (''subspecies'', \<lambda>s. CountCell (int (length (subspeciesDictionary s))))]"

fun writeRows :: "(string \<times> (Sample \<Rightarrow> cell)) list \<Rightarrow> Sample list \<Rightarrow> error + row list" where
  "writeRows [] ss = Inr []"
| "writeRows ((heading, f) # bs) ss =
     (case writeRow heading f ss of
        Inl e \<Rightarrow> Inl e
      | Inr r \<Rightarrow> (case writeRows bs ss of Inl e \<Rightarrow> Inl e | Inr rs \<Rightarrow> Inr (r # rs)))"

definition writeResults :: "Sample list \<Rightarrow> error + row list" where
  "writeResults ss = writeRows blocks ss"

subsection \<open>run\<close>

type_synonym filesystem = "string \<Rightarrow> string list option"

text \<open>\<^verbatim>\<open>os.path.isfile\<close>\<close>

definition isfile :: "filesystem \<Rightarrow> string \<Rightarrow> bool" where
  "isfile fs location \<longleftrightarrow> fs location \<noteq> None"

text \<open>
  Lines 520 to 522: \<^verbatim>\<open>if not rate: rate = DEFAULT_RATE\<close>. The rate is \<open>None\<close> when
  the option was not given; \<^verbatim>\<open>not rate\<close> holds for \<open>None\<close> and for zero, and for no
  other float.
\<close>

definition optionalRate :: "pyfloat option \<Rightarrow> pyfloat" where
  "optionalRate r =
     (case r of
        None \<Rightarrow> DEFAULT_RATE
      | Some x \<Rightarrow> if x = Finite 0 then DEFAULT_RATE else x)"

text \<open>
  Lines 536 to 538: the loop that appends a new sample at the rate \<^verbatim>\<open>i * rate\<close> for
  every \<open>i\<close> of the range.
\<close>

fun appendSamples :: "pyfloat \<Rightarrow> int list \<Rightarrow> error + Sample list" where
  "appendSamples r [] = Inr []"
| "appendSamples r (i # rest) =
     (case intTimesFloat i r of
        Inl e \<Rightarrow> Inl e
      | Inr x \<Rightarrow>
          (case appendSamples r rest of
             Inl e \<Rightarrow> Inl e
           | Inr ss \<Rightarrow> Inr (newSample x # ss)))"

text \<open>
  Lines 532 to 538: \<^verbatim>\<open>samplingPoints = int(1 / float(rate))\<close> and the loop over
  \<^verbatim>\<open>range(1, samplingPoints + 1)\<close>.
\<close>

definition initializeSamples :: "pyfloat \<Rightarrow> error + Sample list" where
  "initializeSamples r =
     (case oneOver r of
        Inl e \<Rightarrow> Inl e
      | Inr x \<Rightarrow>
          (case intOfFloat x of
             Inl e \<Rightarrow> Inl e
           | Inr samplingPoints \<Rightarrow> appendSamples r [1..samplingPoints]))"

text \<open>
  The result of a run that returns: the final samples and the rows written to the
  output file. Opening, closing and failing to open a file that exists are not modelled.
\<close>

record outcome =
  finalSamples :: "Sample list"
  written :: "row list"

definition run ::
  "filesystem \<Rightarrow> (nat \<Rightarrow> rat) \<Rightarrow> string \<Rightarrow> string \<Rightarrow> string \<Rightarrow> pyfloat option \<Rightarrow> error + outcome" where
  "run fs random untranslatedLocation translatedLocation outputLocation r =
     (if \<not> isfile fs untranslatedLocation then Inl (CouldNotOpenInput untranslatedLocation)
      else if \<not> isfile fs translatedLocation then Inl (CouldNotOpenInput translatedLocation)
      else
        (let r' = optionalRate r in
         if r' \<le> Finite 0 \<or> r' > Finite 1 then Inl (RateNotInRange r')
         else
           (case initializeSamples r' of
              Inl e \<Rightarrow> Inl e
            | Inr ss \<Rightarrow>
                (case generateRarefaction random (the (fs untranslatedLocation))
                        (the (fs translatedLocation)) ss of
                   Inl e \<Rightarrow> Inl e
                 | Inr st \<Rightarrow>
                     (case writeResults (samples st) of
                        Inl e \<Rightarrow> Inl e
                      | Inr rows \<Rightarrow> Inr \<lparr>finalSamples = samples st, written = rows\<rparr>)))))"

subsection \<open>Notions used in the properties\<close>

text \<open>
  The test of lines 325 and 348, \<^verbatim>\<open>untranslatedLine[0] == CLASSIFIED\<close>, as a predicate
  on a line (false for the empty string, on which the source raises).
\<close>

definition classified :: "string \<Rightarrow> bool" where
  "classified untranslatedLine \<longleftrightarrow> take 1 untranslatedLine = CLASSIFIED"

text \<open>
  The read records of the specification, for the comparison with the code: one pair for
  each line of the untranslated file, of the draw of the read and, for a classified read,
  the rank path on its line of the translated file (the line whose index is the number of
  classified lines before). \<open>k\<close> is the number of the next draw and \<open>pos\<close> the index of
  the next translated line. A classified read whose translated line has no rank path has
  none in its record; the pass fails on such a read.
\<close>

fun readRecords ::
  "(nat \<Rightarrow> rat) \<Rightarrow> string list \<Rightarrow> nat \<Rightarrow> nat \<Rightarrow> string list \<Rightarrow> (rat \<times> string list option) list" where
  "readRecords random translatedFile k pos [] = []"
| "readRecords random translatedFile k pos (untranslatedLine # rest) =
     (if classified untranslatedLine then
        (random k, (case tokenize (readline translatedFile pos) of
                      Inl e \<Rightarrow> None
                    | Inr rankings \<Rightarrow> Some rankings))
          # readRecords random translatedFile (k + 1) (pos + 1) rest
      else (random k, None) # readRecords random translatedFile (k + 1) pos rest)"

text \<open>
  The rank tokens observed among the reads that the sample at rate \<open>r\<close> includes (the
  draw is at most \<open>r\<close>), and the distinct ones among them of the rank with a given label.
\<close>

fun observedTokens :: "pyfloat \<Rightarrow> (rat \<times> string list option) list \<Rightarrow> string list" where
  "observedTokens r [] = []"
| "observedTokens r ((x, None) # recs) = observedTokens r recs"
| "observedTokens r ((x, Some rankPath) # recs) =
     (if Finite x \<le> r then rankPath @ observedTokens r recs else observedTokens r recs)"

definition distinctTokens ::
  "string \<Rightarrow> pyfloat \<Rightarrow> (rat \<times> string list option) list \<Rightarrow> string set" where
  "distinctTokens label r recs =
     {t \<in> set (observedTokens r recs). startswith t (label @ KRAKEN_SEPARATOR)}"

text \<open>The effect of a sequence of read records on one sample.\<close>

fun tally :: "Sample \<Rightarrow> (rat \<times> string list option) list \<Rightarrow> Sample" where
  "tally s [] = s"
| "tally s ((x, rk) # recs) = tally (operate x rk s) recs"

text \<open>
  The bound of overflow, \<open>2 powi 1024\<close>: a rounded value of this size or more is an
  infinity. And the smallest positive double, \<open>2 powi (- 1074)\<close> (about 5e-324).
\<close>

definition overflowBound :: rat where
  "overflowBound = 2 powi 1024"

definition smallestDouble :: rat where
  "smallestDouble = 2 powi (- 1074)"

text \<open>
  An example after the one of the specification: three reads, the first and the third
  classified, the draws 0.25, 0.625 and 0.375, and the samples of the rate 0.5 (at 0.5
  and at 1.0).
\<close>

definition exampleRandom :: "nat \<Rightarrow> rat" where
  "exampleRandom k = (if k = 0 then 1 / 4 else if k = 1 then 5 / 8 else 3 / 8)"

definition exampleUntranslated :: "string list" where
  "exampleUntranslated = [''C'' @ [CHR 0x0A], ''U'' @ [CHR 0x0A], ''C'' @ [CHR 0x0A]]"

definition exampleTranslated :: "string list" where
  "exampleTranslated =
     [''r1'' @ [CHR 0x09] @ ''d__Bacteria|p__Firmicutes'' @ [CHR 0x0A],
      ''r3'' @ [CHR 0x09] @ ''d__Bacteria|s__X'' @ [CHR 0x0A]]"

definition exampleSamples :: "Sample list" where
  "exampleSamples = [newSample (Finite (1 / 2)), newSample (Finite 1)]"

definition exampleStart :: engine where
  "exampleStart = \<lparr>samples = exampleSamples, translatedPos = 0, drawn = 0\<rparr>"

text \<open>
  A second generator, which returns the same first three values, and a file system with
  the two input files of the example.
\<close>

definition exampleRandom' :: "nat \<Rightarrow> rat" where
  "exampleRandom' k =
     (if k = 0 then 1 / 4 else if k = 1 then 5 / 8 else if k = 2 then 3 / 8 else 7 / 8)"

definition exampleFiles :: filesystem where
  "exampleFiles location =
     (if location = ''u.txt'' then Some exampleUntranslated
      else if location = ''t.txt'' then Some exampleTranslated
      else None)"

section \<open>Properties\<close>

subsection \<open>One sample and one read\<close>

lemma rate_updateDictionaries: "rate (updateDictionaries s rs) = rate s"
  by (simp add: updateDictionaries_def)

lemma numberOfReads_updateDictionaries:
  "numberOfReads (updateDictionaries s rs) = numberOfReads s"
  by (simp add: updateDictionaries_def)

lemma rate_operate: "rate (operate x rk s) = rate s"
  by (simp add: operate_def Let_def rate_updateDictionaries split: option.splits)

lemma numberOfReads_operate:
  "numberOfReads (operate x rk s) =
     (if included x s then numberOfReads s + 1 else numberOfReads s)"
  by (simp add: operate_def Let_def numberOfReads_updateDictionaries split: option.splits)

lemma operate_None:
  "operate x None s = (if included x s then s\<lparr>numberOfReads := numberOfReads s + 1\<rparr> else s)"
  by (simp add: operate_def)

lemma finite_le_less_trans:
  fixes a b :: pyfloat
  shows "a < b \<Longrightarrow> Finite x \<le> a \<Longrightarrow> Finite x \<le> b"
  by (cases a; cases b) auto

subsection \<open>One iteration of the pass\<close>

lemma readStep_Inr:
  assumes "readStep random translatedFile st line = Inr st'"
  shows "line \<noteq> [] \<and> drawn st' = drawn st + 1 \<and>
         translatedPos st' = translatedPos st + (if classified line then 1 else 0) \<and>
         (\<exists>rk. samples st' = map (operate (random (drawn st)) rk) (samples st))"
proof (cases line)
  case Nil
  with assms show ?thesis by (simp add: readStep_def)
next
  case (Cons c cs)
  show ?thesis
  proof (cases "[c] = CLASSIFIED")
    case True
    with assms Cons obtain rankings where
      "st' = \<lparr>samples = map (operate (random (drawn st)) (Some rankings)) (samples st),
              translatedPos = translatedPos st + 1, drawn = drawn st + 1\<rparr>"
      by (auto simp: readStep_def Let_def split: sum.splits)
    with True Cons show ?thesis by (auto simp: classified_def)
  next
    case False
    with assms Cons have
      "st' = \<lparr>samples = map (operate (random (drawn st)) None) (samples st),
              translatedPos = translatedPos st, drawn = drawn st + 1\<rparr>"
      by (auto simp: readStep_def Let_def)
    with False Cons show ?thesis by (auto simp: classified_def)
  qed
qed

lemma readStep_cases:
  assumes "readStep random translatedFile st line = Inr st'"
  obtains rk where "samples st' = map (operate (random (drawn st)) rk) (samples st)"
    and "drawn st' = drawn st + 1"
    and "translatedPos st' = translatedPos st + (if classified line then 1 else 0)"
    and "line \<noteq> []"
  using readStep_Inr[OF assms] by blast

lemma readStep_error: "readStep random translatedFile st line = Inl e \<Longrightarrow> e = IndexError"
  by (auto simp: readStep_def tokenize_def Let_def split: list.splits if_splits sum.splits)

text \<open>
  C1 (nesting monotonicity). One draw is compared with the rate of every sample: when an
  iteration of the pass includes the read in the sample at index \<open>i\<close>, it includes it in
  every sample \<open>j\<close> of a greater rate, and the read counts of both go up by one.
\<close>

theorem nesting_monotonicity:
  assumes "readStep random translatedFile st line = Inr st'"
    and "i < length (samples st)" and "j < length (samples st)"
    and "rate (samples st ! i) < rate (samples st ! j)"
    and "included (random (drawn st)) (samples st ! i)"
  shows "included (random (drawn st)) (samples st ! j) \<and>
         numberOfReads (samples st' ! i) = numberOfReads (samples st ! i) + 1 \<and>
         numberOfReads (samples st' ! j) = numberOfReads (samples st ! j) + 1"
proof -
  from assms(1) obtain rk where
    s: "samples st' = map (operate (random (drawn st)) rk) (samples st)"
    by (rule readStep_cases)
  from assms(4,5) have inc: "included (random (drawn st)) (samples st ! j)"
    unfolding included_def by (rule finite_le_less_trans)
  with assms(2,3,5) s show ?thesis by (simp add: numberOfReads_operate)
qed

theorem nesting_monotonicity_witness:
  "rate (samples exampleStart ! 0) < rate (samples exampleStart ! 1) \<and>
   included (exampleRandom (drawn exampleStart)) (samples exampleStart ! 0) \<and>
   included (exampleRandom (drawn exampleStart)) (samples exampleStart ! 1) \<and>
   numberOfReads (samples (projr (readStep exampleRandom exampleTranslated exampleStart
      (exampleUntranslated ! 0))) ! 1) = numberOfReads (samples exampleStart ! 1) + 1"
proof -
  have step: "readStep exampleRandom exampleTranslated exampleStart (exampleUntranslated ! 0) =
    Inr (projr (readStep exampleRandom exampleTranslated exampleStart (exampleUntranslated ! 0)))"
    by code_simp
  have i: "0 < length (samples exampleStart)" by code_simp
  have j: "1 < length (samples exampleStart)" by code_simp
  have lt: "rate (samples exampleStart ! 0) < rate (samples exampleStart ! 1)" by code_simp
  have inc: "included (exampleRandom (drawn exampleStart)) (samples exampleStart ! 0)"
    by code_simp
  from nesting_monotonicity[OF step i j lt inc] lt inc show ?thesis by blast
qed

text \<open>
  C9 (unclassified reads still counted). For a line whose first character is not
  \<^verbatim>\<open>C\<close> the iteration returns; a sample that includes the read (its rate is at least
  the draw) is the old sample with the read count incremented by one, its rate and its
  eight dictionaries as before, and any other sample is as before.
\<close>

theorem unclassified_counted:
  assumes "untranslatedLine = c # cs" and "[c] \<noteq> CLASSIFIED"
  shows "\<exists>st'. readStep random translatedFile st untranslatedLine = Inr st' \<and>
           length (samples st') = length (samples st) \<and>
           (\<forall>i < length (samples st).
              samples st' ! i =
                (if Finite (random (drawn st)) \<le> rate (samples st ! i)
                 then (samples st ! i)\<lparr>numberOfReads := numberOfReads (samples st ! i) + 1\<rparr>
                 else samples st ! i))"
  using assms by (simp add: readStep_def operate_None included_def)

theorem unclassified_counted_witness:
  "[CHR ''U''] \<noteq> CLASSIFIED \<and>
   Finite (exampleRandom (drawn exampleStart)) \<le> rate (samples exampleStart ! 0) \<and>
   samples (projr (readStep exampleRandom exampleTranslated exampleStart (exampleUntranslated ! 1))) ! 0 =
     (samples exampleStart ! 0)\<lparr>numberOfReads := numberOfReads (samples exampleStart ! 0) + 1\<rparr>"
proof -
  have l: "exampleUntranslated ! 1 = CHR ''U'' # [CHR 0x0A]" by code_simp
  have c: "[CHR ''U''] \<noteq> CLASSIFIED" by code_simp
  have i: "0 < length (samples exampleStart)" by code_simp
  have inc: "Finite (exampleRandom (drawn exampleStart)) \<le> rate (samples exampleStart ! 0)"
    by code_simp
  from unclassified_counted[OF l c, of exampleRandom exampleTranslated exampleStart]
  obtain st' where
    s: "readStep exampleRandom exampleTranslated exampleStart (exampleUntranslated ! 1) = Inr st'"
    and a: "\<forall>i < length (samples exampleStart).
              samples st' ! i =
                (if Finite (exampleRandom (drawn exampleStart)) \<le> rate (samples exampleStart ! i)
                 then (samples exampleStart ! i)\<lparr>numberOfReads := numberOfReads (samples exampleStart ! i) + 1\<rparr>
                 else samples exampleStart ! i)"
    by blast
  from a i inc have "samples st' ! 0 =
     (samples exampleStart ! 0)\<lparr>numberOfReads := numberOfReads (samples exampleStart ! 0) + 1\<rparr>" by simp
  with s c inc show ?thesis by simp
qed

subsection \<open>The pass over the untranslated file\<close>

lemma readLoop_error: "readLoop random translatedFile st untranslatedFile = Inl e \<Longrightarrow> e = IndexError"
  by (induction untranslatedFile arbitrary: st) (auto split: sum.splits dest: readStep_error)

lemma readLoop_append:
  "readLoop random translatedFile st (xs @ ys) =
     (case readLoop random translatedFile st xs of Inl e \<Rightarrow> Inl e | Inr st' \<Rightarrow> readLoop random translatedFile st' ys)"
  by (induction xs arbitrary: st) (auto split: sum.splits)

lemma readLoop_counts:
  "readLoop random translatedFile st untranslatedFile = Inr st' \<Longrightarrow>
     drawn st' = drawn st + length untranslatedFile \<and>
     translatedPos st' = translatedPos st + length (filter classified untranslatedFile) \<and>
     map rate (samples st') = map rate (samples st)"
proof (induction untranslatedFile arbitrary: st)
  case Nil
  then show ?case by simp
next
  case (Cons l untranslatedFile)
  from Cons.prems obtain st1 where s1: "readStep random translatedFile st l = Inr st1"
    and r: "readLoop random translatedFile st1 untranslatedFile = Inr st'"
    by (auto split: sum.splits)
  from s1 obtain rk where "samples st1 = map (operate (random (drawn st)) rk) (samples st)"
    "drawn st1 = drawn st + 1"
    "translatedPos st1 = translatedPos st + (if classified l then 1 else 0)"
    by (rule readStep_cases)
  with Cons.IH[OF r] show ?case by (simp add: rate_operate comp_def)
qed

lemma readLoop_prefix:
  assumes "readLoop random translatedFile st untranslatedFile = Inr st'"
  shows "\<exists>a. readLoop random translatedFile st (take n untranslatedFile) = Inr a"
proof -
  have "readLoop random translatedFile st (take n untranslatedFile @ drop n untranslatedFile) = Inr st'" using assms by simp
  then show ?thesis unfolding readLoop_append by (auto split: sum.splits)
qed

lemma generateRarefaction_rates:
  "generateRarefaction random u translatedFile ss = Inr st \<Longrightarrow> map rate (samples st) = map rate ss"
  by (auto simp: generateRarefaction_def dest: readLoop_counts)

text \<open>
  C7 (lockstep). In a pass that returns, before every line \<open>n\<close> of the untranslated file
  the number of lines read from the translated file is the number of classified lines
  among the first \<open>n\<close>; the iteration for line \<open>n\<close> reads one more line when line \<open>n\<close> is
  classified and none otherwise; at the end the number is that of all classified lines.
\<close>

theorem lockstep:
  assumes "readLoop random translatedFile st untranslatedFile = Inr st'" and "n < length untranslatedFile"
  shows "\<exists>a b. readLoop random translatedFile st (take n untranslatedFile) = Inr a \<and>
               readStep random translatedFile a (untranslatedFile ! n) = Inr b \<and>
               translatedPos a = translatedPos st + length (filter classified (take n untranslatedFile)) \<and>
               translatedPos b =
                 (if classified (untranslatedFile ! n) then translatedPos a + 1 else translatedPos a) \<and>
               translatedPos st' = translatedPos st + length (filter classified untranslatedFile)"
proof -
  from assms(2) have decomp: "untranslatedFile = take n untranslatedFile @ (untranslatedFile ! n) # drop (Suc n) untranslatedFile"
    by (simp add: id_take_nth_drop)
  from assms(1) obtain a where a: "readLoop random translatedFile st (take n untranslatedFile) = Inr a"
    using readLoop_prefix by blast
  have "readLoop random translatedFile st (take n untranslatedFile @ (untranslatedFile ! n) # drop (Suc n) untranslatedFile) = Inr st'"
    using assms(1) decomp by simp
  with a obtain b where b: "readStep random translatedFile a (untranslatedFile ! n) = Inr b"
    unfolding readLoop_append by (auto split: sum.splits)
  from b obtain rk where
    "translatedPos b = translatedPos a + (if classified (untranslatedFile ! n) then 1 else 0)"
    by (rule readStep_cases)
  with a b readLoop_counts[OF a] readLoop_counts[OF assms(1)] show ?thesis by auto
qed

theorem lockstep_witness:
  "\<not> classified (exampleUntranslated ! 1) \<and>
   translatedPos (projr (readLoop exampleRandom exampleTranslated exampleStart (take 1 exampleUntranslated))) = 1 \<and>
   translatedPos (projr (readLoop exampleRandom exampleTranslated exampleStart (take 2 exampleUntranslated))) = 1 \<and>
   translatedPos (projr (readLoop exampleRandom exampleTranslated exampleStart exampleUntranslated)) = 2"
proof -
  have run: "readLoop exampleRandom exampleTranslated exampleStart exampleUntranslated =
    Inr (projr (readLoop exampleRandom exampleTranslated exampleStart exampleUntranslated))"
    by code_simp
  have n: "1 < length exampleUntranslated" by code_simp
  have u: "\<not> classified (exampleUntranslated ! 1)" by code_simp
  have p: "translatedPos exampleStart = 0" by code_simp
  have f1: "length (filter classified (take 1 exampleUntranslated)) = 1" by code_simp
  have f: "length (filter classified exampleUntranslated) = 2" by code_simp
  have t2: "take 2 exampleUntranslated = take 1 exampleUntranslated @ [exampleUntranslated ! 1]"
    by code_simp
  from lockstep[OF run n] obtain a b where
    a: "readLoop exampleRandom exampleTranslated exampleStart (take 1 exampleUntranslated) = Inr a"
    and b: "readStep exampleRandom exampleTranslated a (exampleUntranslated ! 1) = Inr b"
    and pa: "translatedPos a = translatedPos exampleStart + length (filter classified (take 1 exampleUntranslated))"
    and pb: "translatedPos b = (if classified (exampleUntranslated ! 1) then translatedPos a + 1 else translatedPos a)"
    and pe: "translatedPos (projr (readLoop exampleRandom exampleTranslated exampleStart exampleUntranslated)) =
       translatedPos exampleStart + length (filter classified exampleUntranslated)"
    by blast
  have "readLoop exampleRandom exampleTranslated exampleStart (take 2 exampleUntranslated) = Inr b"
    unfolding t2 readLoop_append using a b by simp
  with a pa pb pe u p f1 f show ?thesis by simp
qed

lemma readStep_cong:
  "random (drawn st) = random' (drawn st) \<Longrightarrow> readStep random translatedFile st l = readStep random' translatedFile st l"
  by (simp add: readStep_def)

lemma readLoop_cong:
  "\<forall>k < length untranslatedFile. random (drawn st + k) = random' (drawn st + k) \<Longrightarrow>
     readLoop random translatedFile st untranslatedFile = readLoop random' translatedFile st untranslatedFile"
proof (induction untranslatedFile arbitrary: st)
  case Nil
  then show ?case by simp
next
  case (Cons l untranslatedFile)
  from Cons.prems have h: "random (drawn st) = random' (drawn st)" by force
  show ?case
  proof (cases "readStep random translatedFile st l")
    case (Inl e)
    then show ?thesis using readStep_cong[of random st random' translatedFile l, OF h] by simp
  next
    case (Inr st1)
    then obtain rk where d: "drawn st1 = drawn st + 1" by (rule readStep_cases)
    have "\<forall>k < length untranslatedFile. random (drawn st1 + k) = random' (drawn st1 + k)"
    proof (intro allI impI)
      fix k assume "k < length untranslatedFile"
      then have "Suc k < length (l # untranslatedFile)" by simp
      with Cons.prems have "random (drawn st + Suc k) = random' (drawn st + Suc k)" by blast
      then show "random (drawn st1 + k) = random' (drawn st1 + k)" using d by simp
    qed
    from Cons.IH[OF this] Inr readStep_cong[of random st random' translatedFile l, OF h]
    show ?thesis by simp
  qed
qed

text \<open>
  C4 (single draw per read, determinism). A pass that returns has called the generator
  once for each line of the untranslated file, whatever the samples are; and the result
  of the pass (the error, or the final state with the read count and the eight
  dictionaries of every sample) depends on the generator only through these values: two
  generators that return the same first \<open>length untranslatedFile\<close> values give the same
  result on the same inputs.
\<close>

theorem single_draw:
  assumes "\<forall>k < length untranslatedFile. random k = random' k"
  shows "generateRarefaction random untranslatedFile translatedFile ss =
           generateRarefaction random' untranslatedFile translatedFile ss \<and>
         (\<forall>st'. generateRarefaction random untranslatedFile translatedFile ss = Inr st' \<longrightarrow>
            drawn st' = length untranslatedFile)"
  using assms
    readLoop_cong[of untranslatedFile random "\<lparr>samples = ss, translatedPos = 0, drawn = 0\<rparr>"
      random' translatedFile]
  by (auto simp: generateRarefaction_def dest: readLoop_counts)

theorem single_draw_witness:
  "generateRarefaction exampleRandom exampleUntranslated exampleTranslated (exampleSamples) =
     generateRarefaction exampleRandom' exampleUntranslated exampleTranslated (exampleSamples) \<and>
   drawn (projr (generateRarefaction exampleRandom exampleUntranslated exampleTranslated
     (exampleSamples))) = length exampleUntranslated"
proof -
  have len: "length exampleUntranslated = 3" by code_simp
  have agree: "\<forall>k < length exampleUntranslated. exampleRandom k = exampleRandom' k"
    unfolding len by (simp add: exampleRandom_def exampleRandom'_def)
  have run: "generateRarefaction exampleRandom exampleUntranslated exampleTranslated
      (exampleSamples) =
    Inr (projr (generateRarefaction exampleRandom exampleUntranslated exampleTranslated
      (exampleSamples)))"
    by code_simp
  from single_draw[OF agree, of exampleTranslated "exampleSamples"] run
  show ?thesis by blast
qed

lemma readStep_desync:
  assumes "classified line"
    and "length translatedFile \<le> translatedPos st \<or> length (split (strip (translatedFile ! translatedPos st))) < 2"
  shows "readStep random translatedFile st line = Inl IndexError"
proof -
  have "tokenize (readline translatedFile (translatedPos st)) = Inl IndexError"
    using assms(2) by (auto simp: tokenize_def readline_def Let_def strip_def split_def)
  with assms(1) show ?thesis
    by (auto simp: readStep_def Let_def classified_def CLASSIFIED_def split: list.splits)
qed

lemma readLoop_desync:
  assumes "classified line"
    and "length translatedFile \<le> translatedPos st + length (filter classified before) \<or>
         length (split (strip (translatedFile ! (translatedPos st + length (filter classified before))))) < 2"
  shows "readLoop random translatedFile st (before @ line # after) = Inl IndexError"
proof (cases "readLoop random translatedFile st before")
  case (Inl e)
  then show ?thesis
    using readLoop_error[OF Inl] by (simp add: readLoop_append)
next
  case (Inr a)
  from readLoop_counts[OF Inr]
  have "translatedPos a = translatedPos st + length (filter classified before)"
    by simp
  with assms have "readStep random translatedFile a line = Inl IndexError"
    by (intro readStep_desync) auto
  with Inr show ?thesis
    by (simp add: readLoop_append)
qed

text \<open>
  C5 (desynchronisation is fatal). Let a classified line of the untranslated file have
  \<open>k\<close> classified lines before it. When the translated file has no line \<open>k\<close> (it is
  exhausted), or its line \<open>k\<close> has fewer than two tokens (the rank path is missing),
  \<^verbatim>\<open>generateRarefaction\<close> raises: its result is the error \<open>IndexError\<close>, which nothing in
  the program catches.
\<close>

theorem desync_fatal:
  assumes "untranslatedFile = before @ line # after"
    and "classified line"
    and "length translatedFile \<le> length (filter classified before) \<or>
         length (split (strip (translatedFile ! length (filter classified before)))) < 2"
  shows "generateRarefaction random untranslatedFile translatedFile ss = Inl IndexError"
  using assms(2,3)
    readLoop_desync[of line translatedFile "\<lparr>samples = ss, translatedPos = 0, drawn = 0\<rparr>"
      before random after]
  by (simp add: generateRarefaction_def assms(1))

theorem desync_fatal_witness:
  "classified (exampleUntranslated ! 2) \<and>
   length (take 1 exampleTranslated) \<le> length (filter classified (take 2 exampleUntranslated)) \<and>
   generateRarefaction exampleRandom exampleUntranslated (take 1 exampleTranslated)
     (exampleSamples) = Inl IndexError"
proof -
  have d: "exampleUntranslated = take 2 exampleUntranslated @ (exampleUntranslated ! 2) # []"
    by code_simp
  have c: "classified (exampleUntranslated ! 2)" by code_simp
  have e: "length (take 1 exampleTranslated) \<le> length (filter classified (take 2 exampleUntranslated))"
    by code_simp
  from desync_fatal[OF d c disjI1[OF e], of exampleRandom "exampleSamples"] c e
  show ?thesis by blast
qed

lemma filter_nth_split:
  "n < length (filter P xs) \<Longrightarrow>
     \<exists>ys x zs. xs = ys @ x # zs \<and> P x \<and> length (filter P ys) = n"
proof (induction xs arbitrary: n)
  case Nil
  then show ?case by simp
next
  case (Cons a xs)
  show ?case
  proof (cases "P a \<and> n = 0")
    case True
    then have "a # xs = [] @ a # xs \<and> P a \<and> length (filter P []) = n" by simp
    then show ?thesis by blast
  next
    case False
    define m where "m = (if P a then n - 1 else n)"
    from False Cons.prems have "m < length (filter P xs)"
      by (auto simp: m_def split: if_splits)
    from Cons.IH[OF this] obtain ys x zs where
      "xs = ys @ x # zs" "P x" "length (filter P ys) = m" by blast
    with False have "a # xs = (a # ys) @ x # zs \<and> P x \<and> length (filter P (a # ys)) = n"
      by (auto simp: m_def)
    then show ?thesis by blast
  qed
qed

text \<open>
  In particular, a translated file with fewer lines than the untranslated file has
  classified lines makes the pass fail.
\<close>

lemma desync_detection:
  assumes "length translatedFile < length (filter classified untranslatedFile)"
  shows "generateRarefaction random untranslatedFile translatedFile ss = Inl IndexError"
proof -
  from filter_nth_split[OF assms] obtain before line after where
    u: "untranslatedFile = before @ line # after" and c: "classified line"
    and n: "length (filter classified before) = length translatedFile"
    by blast
  from n have "length translatedFile \<le>
      translatedPos \<lparr>samples = ss, translatedPos = 0, drawn = 0\<rparr> + length (filter classified before)"
    by simp
  from readLoop_desync[OF c disjI1[OF this]] show ?thesis
    by (simp add: generateRarefaction_def u)
qed

section \<open>Double arithmetic\<close>

subsection \<open>The binary logarithm\<close>

lemma ilog2_bounds:
  assumes "0 < x"
  shows "2 powi ilog2 x \<le> x \<and> x < 2 powi (ilog2 x + 1)"
proof -
  obtain p q where pq: "quotient_of x = (p, q)" by (cases "quotient_of x")
  then have q: "0 < q" and x: "x = of_int p / of_int q"
    by (simp_all add: quotient_of_denom_pos quotient_of_div)
  from assms q x have p: "0 < p" by (simp add: zero_less_divide_iff)
  define bp bq where "bp = bitlen p" and "bq = bitlen q"
  from bitlen_bounds[OF p] have p1: "(2::int) ^ nat (bp - 1) \<le> p" and p2: "p < 2 ^ nat bp"
    by (simp_all add: bp_def)
  from bitlen_bounds[OF q] have q1: "(2::int) ^ nat (bq - 1) \<le> q" and q2: "q < 2 ^ nat bq"
    by (simp_all add: bq_def)
  have bp1: "1 \<le> bp" using p bitlen_eq_zero_iff[of p] bitlen_nonneg[of p] by (simp add: bp_def)
  have bq1: "1 \<le> bq" using q bitlen_eq_zero_iff[of q] bitlen_nonneg[of q] by (simp add: bq_def)
  have P1: "(2::rat) powi (bp - 1) \<le> of_int p"
  proof -
    have "(2::rat) powi (bp - 1) = of_int (2 ^ nat (bp - 1))"
      using bp1 by (simp add: power_int_nonneg_exp)
    also have "\<dots> \<le> of_int p" using p1 by (simp only: of_int_le_iff)
    finally show ?thesis .
  qed
  have P2: "of_int p < (2::rat) powi bp"
  proof -
    have "(of_int p :: rat) < of_int (2 ^ nat bp)" using p2 by (simp only: of_int_less_iff)
    also have "\<dots> = 2 powi bp" using bp1 by (simp add: power_int_nonneg_exp)
    finally show ?thesis .
  qed
  have Q1: "(2::rat) powi (bq - 1) \<le> of_int q"
  proof -
    have "(2::rat) powi (bq - 1) = of_int (2 ^ nat (bq - 1))"
      using bq1 by (simp add: power_int_nonneg_exp)
    also have "\<dots> \<le> of_int q" using q1 by (simp only: of_int_le_iff)
    finally show ?thesis .
  qed
  have Q2: "of_int q < (2::rat) powi bq"
  proof -
    have "(of_int q :: rat) < of_int (2 ^ nat bq)" using q2 by (simp only: of_int_less_iff)
    also have "\<dots> = 2 powi bq" using bq1 by (simp add: power_int_nonneg_exp)
    finally show ?thesis .
  qed
  define k where "k = bp - bq"
  have qpos: "(0::rat) < of_int q" using q by simp
  have upper: "x < (2::rat) powi (k + 1)"
  proof -
    have "x * 2 powi (bq - 1) \<le> x * of_int q" using Q1 assms by simp
    also have "\<dots> = of_int p" using x qpos by simp
    also have "\<dots> < 2 powi bp" by (rule P2)
    also have "\<dots> = 2 powi (k + 1) * 2 powi (bq - 1)"
      by (simp add: k_def power_int_add[symmetric])
    finally show ?thesis by simp
  qed
  have lower: "(2::rat) powi (k - 1) < x"
  proof -
    have "(2::rat) powi (k - 1) * of_int q < 2 powi (k - 1) * 2 powi bq" using Q2 by simp
    also have "\<dots> = 2 powi (bp - 1)" by (simp add: k_def power_int_add[symmetric])
    also have "\<dots> \<le> of_int p" by (rule P1)
    also have "\<dots> = x * of_int q" using x qpos by simp
    finally show ?thesis using qpos by simp
  qed
  have il: "ilog2 x = (if 2 powi k \<le> x then k else k - 1)"
    by (simp add: ilog2_def pq Let_def k_def bp_def bq_def)
  show ?thesis
  proof (cases "2 powi k \<le> x")
    case True
    with il upper show ?thesis by simp
  next
    case False
    with il lower show ?thesis by simp
  qed
qed

lemma ilog2_unique:
  assumes "0 < x" and "2 powi k \<le> x" and "x < 2 powi (k + 1)"
  shows "ilog2 x = k"
proof (rule ccontr)
  assume ne: "ilog2 x \<noteq> k"
  from ilog2_bounds[OF assms(1)] have lo: "2 powi ilog2 x \<le> x" and hi: "x < 2 powi (ilog2 x + 1)"
    by simp_all
  show False
  proof (cases "ilog2 x < k")
    case True
    then have "(2::rat) powi (ilog2 x + 1) \<le> 2 powi k"
      by (intro power_int_increasing) simp_all
    with hi assms(2) show False by simp
  next
    case False
    with ne have "k + 1 \<le> ilog2 x" by simp
    then have "(2::rat) powi (k + 1) \<le> 2 powi ilog2 x"
      by (intro power_int_increasing) simp_all
    with lo assms(3) show False by simp
  qed
qed

lemma ilog2_mono:
  assumes "0 < x" and "x \<le> y"
  shows "ilog2 x \<le> ilog2 y"
proof (rule ccontr)
  assume "\<not> ilog2 x \<le> ilog2 y"
  then have "ilog2 y + 1 \<le> ilog2 x" by simp
  then have "(2::rat) powi (ilog2 y + 1) \<le> 2 powi ilog2 x"
    by (intro power_int_increasing) simp_all
  moreover from assms have "0 < y" by simp
  ultimately show False
    using ilog2_bounds[OF assms(1)] ilog2_bounds[OF \<open>0 < y\<close>] assms(2) by simp
qed

lemma ilog2_ge:
  assumes "0 < x" and "2 powi k \<le> x"
  shows "k \<le> ilog2 x"
proof (rule ccontr)
  assume "\<not> k \<le> ilog2 x"
  then have "ilog2 x + 1 \<le> k" by simp
  then have "(2::rat) powi (ilog2 x + 1) \<le> 2 powi k"
    by (intro power_int_increasing) simp_all
  with ilog2_bounds[OF assms(1)] assms(2) show False by simp
qed

lemma ilog2_less:
  assumes "0 < x" and "x < 2 powi k"
  shows "ilog2 x < k"
proof (rule ccontr)
  assume "\<not> ilog2 x < k"
  then have "(2::rat) powi k \<le> 2 powi ilog2 x"
    by (intro power_int_increasing) simp_all
  with ilog2_bounds[OF assms(1)] assms(2) show False by simp
qed

subsection \<open>Rounding to an integer\<close>

lemma roundHalfEven_upper: "of_int (roundHalfEven t) \<le> t + 1 / 2"
  unfolding roundHalfEven_def Let_def by (simp; linarith)

lemma roundHalfEven_lower: "t - 1 / 2 \<le> of_int (roundHalfEven t)"
  unfolding roundHalfEven_def Let_def by (simp; linarith)

lemma roundHalfEven_of_int [simp]: "roundHalfEven (of_int n) = n"
  by (simp add: roundHalfEven_def)

lemma roundHalfEven_cases:
  "roundHalfEven t = \<lfloor>t\<rfloor> \<or> roundHalfEven t = \<lfloor>t\<rfloor> + 1"
  by (simp add: roundHalfEven_def Let_def)

lemma roundHalfEven_mono:
  assumes "s \<le> t"
  shows "roundHalfEven s \<le> roundHalfEven t"
proof (cases "\<lfloor>s\<rfloor> = \<lfloor>t\<rfloor>")
  case True
  with assms have "s - of_int \<lfloor>s\<rfloor> \<le> t - of_int \<lfloor>t\<rfloor>" by simp
  with True show ?thesis by (auto simp: roundHalfEven_def Let_def)
next
  case False
  with assms have "\<lfloor>s\<rfloor> + 1 \<le> \<lfloor>t\<rfloor>" using floor_mono[OF assms] by linarith
  moreover have "roundHalfEven s \<le> \<lfloor>s\<rfloor> + 1" using roundHalfEven_cases[of s] by auto
  moreover have "\<lfloor>t\<rfloor> \<le> roundHalfEven t" using roundHalfEven_cases[of t] by auto
  ultimately show ?thesis by linarith
qed

lemma roundHalfEven_ge: "of_int n \<le> t \<Longrightarrow> n \<le> roundHalfEven t"
  using roundHalfEven_mono[of "of_int n" t] by simp

lemma roundHalfEven_le: "t \<le> of_int n \<Longrightarrow> roundHalfEven t \<le> n"
  using roundHalfEven_mono[of t "of_int n"] by simp

subsection \<open>Rounding to a double\<close>

lemma exponentOf_ge: "- 1074 \<le> exponentOf x"
  by (simp add: exponentOf_def)

lemma exponentOf_mono: "0 < x \<Longrightarrow> x \<le> y \<Longrightarrow> exponentOf x \<le> exponentOf y"
  using ilog2_mono[of x y] by (simp add: exponentOf_def)

lemma below_next_binade:
  assumes "0 < x"
  shows "x < 2 powi (exponentOf x + 53)"
proof -
  have "ilog2 x + 1 \<le> exponentOf x + 53" by (simp add: exponentOf_def)
  then have "(2::rat) powi (ilog2 x + 1) \<le> 2 powi (exponentOf x + 53)"
    by (intro power_int_increasing) simp_all
  with ilog2_bounds[OF assms] show ?thesis by simp
qed

lemma normal_exponent:
  assumes "0 < x" and "- 1022 \<le> ilog2 x"
  shows "exponentOf x = ilog2 x - 52" and "2 powi (exponentOf x + 52) \<le> x"
proof -
  from assms(2) show e: "exponentOf x = ilog2 x - 52" by (simp add: exponentOf_def)
  from ilog2_bounds[OF assms(1)] show "2 powi (exponentOf x + 52) \<le> x" by (simp add: e)
qed

lemma roundValue_pos:
  "0 < x \<Longrightarrow>
     roundValue x = of_int (roundHalfEven (x / 2 powi exponentOf x)) * 2 powi exponentOf x"
  by (simp add: roundValue_def Let_def)

lemma roundValue_zero [simp]: "roundValue 0 = 0"
  by (simp add: roundValue_def)

lemma roundValue_nonneg:
  assumes "0 \<le> x"
  shows "0 \<le> roundValue x"
proof (cases "x = 0")
  case True
  then show ?thesis by simp
next
  case False
  with assms have x: "0 < x" by simp
  have "(0::rat) \<le> x / 2 powi exponentOf x" using x by simp
  then have "0 \<le> roundHalfEven (x / 2 powi exponentOf x)"
    using roundHalfEven_ge[of 0 "x / 2 powi exponentOf x"] by simp
  then show ?thesis by (simp add: roundValue_pos[OF x])
qed

lemma roundValue_upper:
  assumes "0 < x"
  shows "roundValue x \<le> 2 powi (exponentOf x + 53)"
proof -
  define e where "e = exponentOf x"
  have p: "(0::rat) < 2 powi e" by simp
  from below_next_binade[OF assms] have "x < 2 powi 53 * 2 powi e"
    by (simp add: e_def power_int_add)
  with p have "x / 2 powi e < 2 powi 53" by (simp add: pos_divide_less_eq)
  then have "x / 2 powi e \<le> of_int (2 ^ 53)" by simp
  then have "roundHalfEven (x / 2 powi e) \<le> 2 ^ 53" by (rule roundHalfEven_le)
  then have "(of_int (roundHalfEven (x / 2 powi e)) :: rat) \<le> of_int (2 ^ 53)"
    by (simp only: of_int_le_iff)
  then have "of_int (roundHalfEven (x / 2 powi e)) * 2 powi e \<le> (2::rat) powi 53 * 2 powi e"
    using p by (intro mult_right_mono) simp_all
  then show ?thesis by (simp add: roundValue_pos[OF assms] e_def power_int_add)
qed

lemma roundValue_lower:
  assumes "0 < x" and "- 1022 \<le> ilog2 x"
  shows "2 powi (exponentOf x + 52) \<le> roundValue x"
proof -
  define e where "e = exponentOf x"
  have p: "(0::rat) < 2 powi e" by simp
  from normal_exponent(2)[OF assms] have "2 powi 52 * 2 powi e \<le> x"
    by (simp add: e_def power_int_add)
  with p have "2 powi 52 \<le> x / 2 powi e" by (simp add: pos_le_divide_eq)
  then have "of_int (2 ^ 52) \<le> x / 2 powi e" by simp
  then have "2 ^ 52 \<le> roundHalfEven (x / 2 powi e)" by (rule roundHalfEven_ge)
  then have "(of_int (2 ^ 52) :: rat) \<le> of_int (roundHalfEven (x / 2 powi e))"
    by (simp only: of_int_le_iff)
  then have "(2::rat) powi 52 * 2 powi e \<le> of_int (roundHalfEven (x / 2 powi e)) * 2 powi e"
    using p by (intro mult_right_mono) simp_all
  then show ?thesis by (simp add: roundValue_pos[OF assms(1)] e_def power_int_add)
qed

lemma roundValue_mono_pos:
  assumes "0 < x" and "x \<le> y"
  shows "roundValue x \<le> roundValue y"
proof -
  from assms have y: "0 < y" by simp
  from exponentOf_mono[OF assms] have le: "exponentOf x \<le> exponentOf y" .
  show ?thesis
  proof (cases "exponentOf x = exponentOf y")
    case True
    have p: "(0::rat) < 2 powi exponentOf y" by simp
    from assms(2) p have "x / 2 powi exponentOf y \<le> y / 2 powi exponentOf y"
      by (simp add: divide_right_mono)
    then have "roundHalfEven (x / 2 powi exponentOf y) \<le> roundHalfEven (y / 2 powi exponentOf y)"
      by (rule roundHalfEven_mono)
    then have "(of_int (roundHalfEven (x / 2 powi exponentOf y)) :: rat) \<le>
        of_int (roundHalfEven (y / 2 powi exponentOf y))"
      by (simp only: of_int_le_iff)
    with p show ?thesis
      by (simp add: roundValue_pos[OF assms(1)] roundValue_pos[OF y] True)
  next
    case False
    with le have lt: "exponentOf x + 1 \<le> exponentOf y" by simp
    with exponentOf_ge[of x] have "- 1074 < exponentOf y" by simp
    then have n: "- 1022 \<le> ilog2 y" by (simp add: exponentOf_def split: if_splits)
    from lt have "(2::rat) powi (exponentOf x + 53) \<le> 2 powi (exponentOf y + 52)"
      by (intro power_int_increasing) simp_all
    with roundValue_upper[OF assms(1)] roundValue_lower[OF y n] show ?thesis by simp
  qed
qed

lemma roundValue_mono:
  assumes "0 \<le> x" and "x \<le> y"
  shows "roundValue x \<le> roundValue y"
proof (cases "x = 0")
  case True
  with assms roundValue_nonneg[of y] show ?thesis by simp
next
  case False
  with assms show ?thesis by (intro roundValue_mono_pos) simp_all
qed

lemma roundValue_error:
  assumes "0 < x"
  shows "\<bar>roundValue x - x\<bar> \<le> 2 powi (exponentOf x - 1)"
proof -
  define e where "e = exponentOf x"
  define t where "t = x / 2 powi e"
  define m where "m = roundHalfEven t"
  have p: "(0::rat) < 2 powi e" by simp
  have x: "x = t * 2 powi e" by (simp add: t_def)
  have rv: "roundValue x = of_int m * 2 powi e"
    unfolding m_def t_def e_def by (rule roundValue_pos[OF assms])
  have half: "\<bar>of_int m - t\<bar> \<le> 1 / 2"
    using roundHalfEven_upper[of t] roundHalfEven_lower[of t] unfolding m_def by linarith
  have "roundValue x - x = (of_int m - t) * 2 powi e"
    unfolding rv by (subst x) (simp add: left_diff_distrib)
  then have "\<bar>roundValue x - x\<bar> = \<bar>of_int m - t\<bar> * 2 powi e"
    by (simp add: abs_mult)
  also have "\<dots> \<le> 1 / 2 * 2 powi e"
    using half p by (intro mult_right_mono) simp_all
  also have "\<dots> = 2 powi (e - 1)"
    by (simp add: power_int_diff)
  finally show ?thesis by (simp add: e_def)
qed

lemma roundValue_grid:
  assumes "- 1074 \<le> e" and "0 \<le> m" and "m \<le> 2 ^ 53"
  shows "roundValue (of_int m * 2 powi e) = of_int m * 2 powi e"
proof (cases "m = 0")
  case True
  then show ?thesis by simp
next
  case False
  define x :: rat where "x = of_int m * 2 powi e"
  from False assms(2) have m: "0 < m" by simp
  then have x: "0 < x" by (simp add: x_def)
  have "\<exists>n. x = of_int n * 2 powi exponentOf x"
  proof (cases "m = 2 ^ 53")
    case True
    then have xe: "x = 2 powi (e + 53)" by (simp add: x_def power_int_add)
    have "ilog2 x = e + 53"
      by (rule ilog2_unique[OF x]) (simp_all add: xe power_int_add)
    with assms(1) have "exponentOf x = e + 1" by (simp add: exponentOf_def)
    then have "x = of_int (2 ^ 52) * 2 powi exponentOf x" by (simp add: xe power_int_add)
    then show ?thesis by blast
  next
    case False
    with assms(3) have "m < 2 ^ 53" by simp
    then have "(of_int m :: rat) < of_int (2 ^ 53)" by (simp only: of_int_less_iff)
    then have "x < 2 powi (e + 53)" by (simp add: x_def power_int_add)
    from ilog2_less[OF x this] assms(1) have le: "exponentOf x \<le> e"
      by (simp add: exponentOf_def)
    then have "(2::rat) powi e = 2 powi (e - exponentOf x) * 2 powi exponentOf x"
      by (simp add: power_int_add[symmetric])
    also have "(2::rat) powi (e - exponentOf x) = of_int (2 ^ nat (e - exponentOf x))"
      using le by (simp add: power_int_nonneg_exp)
    finally have "x = of_int (m * 2 ^ nat (e - exponentOf x)) * 2 powi exponentOf x"
      by (simp add: x_def)
    then show ?thesis by blast
  qed
  then obtain n where n: "x = of_int n * 2 powi exponentOf x" by blast
  from arg_cong[OF n, of "\<lambda>z. z / 2 powi exponentOf x"]
  have "x / 2 powi exponentOf x = of_int n" by simp
  then have "roundValue x = of_int n * 2 powi exponentOf x"
    by (simp add: roundValue_pos[OF x])
  with n show ?thesis by (simp add: x_def)
qed

lemma mantissa_bounds:
  assumes "0 < x"
  shows "0 \<le> roundHalfEven (x / 2 powi exponentOf x)"
    and "roundHalfEven (x / 2 powi exponentOf x) \<le> 2 ^ 53"
proof -
  define e where "e = exponentOf x"
  have p: "(0::rat) < 2 powi e" by simp
  have "(0::rat) \<le> x / 2 powi e" using assms by simp
  then show "0 \<le> roundHalfEven (x / 2 powi e)"
    using roundHalfEven_ge[of 0 "x / 2 powi e"] by simp
  from below_next_binade[OF assms] have "x < 2 powi 53 * 2 powi e"
    by (simp add: e_def power_int_add)
  with p have "x / 2 powi e < 2 powi 53" by (simp add: pos_divide_less_eq)
  then have "x / 2 powi e \<le> of_int (2 ^ 53)" by simp
  then show "roundHalfEven (x / 2 powi e) \<le> 2 ^ 53" by (rule roundHalfEven_le)
qed

lemma roundValue_idem:
  assumes "0 \<le> x"
  shows "roundValue (roundValue x) = roundValue x"
proof (cases "x = 0")
  case True
  then show ?thesis by simp
next
  case False
  with assms have x: "0 < x" by simp
  show ?thesis
    unfolding roundValue_pos[OF x]
    by (rule roundValue_grid[OF exponentOf_ge mantissa_bounds[OF x]])
qed

lemma ilog2_ge_iff:
  assumes "0 < v"
  shows "k \<le> ilog2 v \<longleftrightarrow> 2 powi k \<le> v"
proof
  assume k: "k \<le> ilog2 v"
  show "2 powi k \<le> v"
  proof (rule ccontr)
    assume "\<not> 2 powi k \<le> v"
    then have "v < 2 powi k" by simp
    from ilog2_less[OF assms this] k show False by simp
  qed
next
  assume "2 powi k \<le> v"
  then show "k \<le> ilog2 v" by (rule ilog2_ge[OF assms])
qed

lemma round64_nonneg:
  assumes "0 \<le> x"
  shows "round64 x = (if overflowBound \<le> roundValue x then PInf else Finite (roundValue x))"
proof (cases "roundValue x = 0")
  case True
  then show ?thesis by (simp add: round64_def overflowBound_def not_le del: power_int_numeral)
next
  case False
  with roundValue_nonneg[OF assms] have v: "0 < roundValue x" by simp
  from ilog2_ge_iff[OF v, of 1024] v False show ?thesis
    by (simp add: round64_def Let_def overflowBound_def del: power_int_numeral)
qed

lemma roundValue_one: "roundValue 1 = 1"
  using roundValue_grid[of 0 1] by simp

lemma roundValue_tie_at_one: "roundValue (1 + 1 / 2 ^ 53) = 1"
  by code_simp

lemma roundValue_pow2:
  assumes "- 1074 \<le> k"
  shows "roundValue (2 powi k) = 2 powi k"
  using roundValue_grid[of k 1] assms by simp

lemma overflowBound_pos: "0 < overflowBound"
  unfolding overflowBound_def by (rule zero_less_power_int) simp

lemma roundValue_overflowBound: "roundValue overflowBound = overflowBound"
  unfolding overflowBound_def by (rule roundValue_pow2) simp

lemma one_less_overflowBound: "1 < overflowBound"
  unfolding overflowBound_def by (rule one_less_power_int) simp_all

lemma reciprocal_rounded_ge_one:
  assumes "0 < q" and "q \<le> 1"
  shows "1 \<le> roundValue (1 / q)"
proof -
  from assms have "1 \<le> 1 / q" by (simp add: le_divide_eq_1_pos)
  from roundValue_mono[OF _ this] show ?thesis by (simp add: roundValue_one)
qed

lemma reciprocal_error:
  assumes "0 < q" and "q \<le> 1"
  shows "roundValue (1 / q) * q \<le> 1 + 1 / 2 ^ 53"
proof -
  define z where "z = 1 / q"
  from assms have z1: "1 \<le> z" by (simp add: z_def le_divide_eq_1_pos)
  then have z: "0 < z" by simp
  from z1 have "2 powi 0 \<le> z" by simp
  from ilog2_ge[OF z this] have n: "- 1022 \<le> ilog2 z" by simp
  from normal_exponent(1)[OF z n] have e: "exponentOf z - 1 = ilog2 z - 53" by simp
  have "roundValue z - z \<le> \<bar>roundValue z - z\<bar>" by simp
  also have "\<dots> \<le> 2 powi (ilog2 z - 53)" using roundValue_error[OF z] by (simp add: e)
  also have "\<dots> = 2 powi ilog2 z * (1 / 2 ^ 53)" by (simp add: power_int_diff)
  also have "\<dots> \<le> z * (1 / 2 ^ 53)"
    using ilog2_bounds[OF z] by (intro mult_right_mono) simp_all
  finally have "roundValue z \<le> z * (1 + 1 / 2 ^ 53)" by (simp add: algebra_simps)
  then have "roundValue z * q \<le> z * (1 + 1 / 2 ^ 53) * q"
    using assms(1) by (intro mult_right_mono) simp_all
  also have "\<dots> = 1 + 1 / 2 ^ 53" using assms(1) by (simp add: z_def)
  finally show ?thesis by (simp add: z_def)
qed

lemma reciprocal_finite_rate_lower:
  assumes "0 < q" and "roundValue (1 / q) < overflowBound"
  shows "2 powi (- 1024) < q"
proof (rule ccontr)
  assume "\<not> 2 powi (- 1024) < q"
  then have "q \<le> 1 / overflowBound" by (simp add: overflowBound_def power_int_minus_divide)
  with assms(1) overflowBound_pos have "overflowBound \<le> 1 / q"
    by (simp add: field_simps)
  from roundValue_mono[OF _ this] overflowBound_pos
  have "overflowBound \<le> roundValue (1 / q)" by (simp add: roundValue_overflowBound)
  with assms(2) show False by simp
qed

section \<open>The samples and the run\<close>

subsection \<open>The sample set\<close>

lemma appendSamples_map:
  "\<forall>i \<in> set is. intTimesFloat i r = Inr (f i) \<Longrightarrow>
     appendSamples r is = Inr (map (\<lambda>i. newSample (f i)) is)"
  by (induction "is") simp_all

lemma intTimesFloat_in_range:
  assumes q: "0 < q" "q \<le> 1"
    and y: "roundValue (1 / q) < overflowBound"
    and i: "1 \<le> i" "of_int i \<le> roundValue (1 / q)"
  shows "intTimesFloat i (Finite q) = Inr (Finite (roundValue (roundValue (of_int i) * q)))"
    and "0 < roundValue (roundValue (of_int i) * q)"
    and "roundValue (roundValue (of_int i) * q) \<le> 1"
    and "1 \<le> roundValue (of_int i)"
    and "roundValue (of_int i) \<le> roundValue (1 / q)"
proof -
  define a where "a = roundValue (of_int i)"
  define x where "x = a * q"
  from i(1) have i1: "(1::rat) \<le> of_int i" by simp
  from roundValue_mono[OF _ i1] show a1: "1 \<le> roundValue (of_int i)"
    by (simp add: roundValue_one)
  from q have "0 \<le> 1 / q" by simp
  from i1 have "(0::rat) \<le> of_int i" by simp
  from roundValue_mono[OF this i(2)] roundValue_idem[OF \<open>0 \<le> 1 / q\<close>]
  show ay: "roundValue (of_int i) \<le> roundValue (1 / q)" by simp
  with y have "\<not> overflowBound \<le> a" by (simp add: a_def)
  with round64_nonneg[OF \<open>(0::rat) \<le> of_int i\<close>] have ra: "round64 (of_int i) = Finite a"
    by (simp add: a_def)
  from a1 q(1) have xq: "q \<le> x" by (simp add: x_def a_def)
  with q(1) have x0: "0 \<le> x" by simp
  have "x \<le> roundValue (1 / q) * q"
    unfolding x_def a_def using ay q(1) by (intro mult_right_mono) simp_all
  also have "\<dots> \<le> 1 + 1 / 2 ^ 53" by (rule reciprocal_error[OF q])
  finally have "roundValue x \<le> roundValue (1 + 1 / 2 ^ 53)" by (rule roundValue_mono[OF x0])
  then show x1: "roundValue (roundValue (of_int i) * q) \<le> 1"
    by (simp only: roundValue_tie_at_one x_def a_def)
  with one_less_overflowBound have "\<not> overflowBound \<le> roundValue x" by (simp add: x_def a_def)
  with round64_nonneg[OF x0] have "round64 x = Finite (roundValue x)" by simp
  with ra show "intTimesFloat i (Finite q) = Inr (Finite (roundValue (roundValue (of_int i) * q)))"
    by (simp add: intTimesFloat_def x_def a_def)
  from reciprocal_finite_rate_lower[OF q(1) y] xq have "2 powi (- 1024) \<le> x" by simp
  from roundValue_mono[OF _ this] have lo: "2 powi (- 1024) \<le> roundValue x"
    by (simp add: roundValue_pow2 del: power_int_numeral_neg_numeral)
  have pos: "(0::rat) < 2 powi (- 1024)" by (rule zero_less_power_int) simp
  from less_le_trans[OF pos lo] show "0 < roundValue (roundValue (of_int i) * q)"
    by (simp only: x_def a_def)
qed

lemma initializeSamples_overflow:
  assumes "0 < q" and "round64 (1 / q) = PInf"
  shows "initializeSamples (Finite q) = Inl OverflowError"
  using assms by (simp add: initializeSamples_def)

lemma reciprocal_finite:
  assumes "0 < q" and "round64 (1 / q) = Finite y"
  shows "y = roundValue (1 / q)" and "roundValue (1 / q) < overflowBound"
proof -
  from assms(1) have "0 \<le> 1 / q" by simp
  from round64_nonneg[OF this] assms(2)
  show "y = roundValue (1 / q)" and "roundValue (1 / q) < overflowBound"
    by (simp_all split: if_splits)
qed

lemma reciprocal_cases:
  assumes "0 < q"
  shows "round64 (1 / q) = PInf \<or> round64 (1 / q) = Finite (roundValue (1 / q))"
proof -
  from assms have "0 \<le> 1 / q" by simp
  from round64_nonneg[OF this] show ?thesis by simp
qed

lemma initializeSamples_finite:
  assumes q: "0 < q" "q \<le> 1" and y: "round64 (1 / q) = Finite y"
  shows "initializeSamples (Finite q) =
     Inr (map (\<lambda>i. newSample (Finite (roundValue (roundValue (of_int i) * q)))) [1..\<lfloor>y\<rfloor>])"
proof -
  note yv = reciprocal_finite[OF q(1) y]
  from reciprocal_rounded_ge_one[OF q] yv(1) have y0: "0 \<le> y" by simp
  have "\<forall>i \<in> set [1..\<lfloor>y\<rfloor>].
      intTimesFloat i (Finite q) = Inr (Finite (roundValue (roundValue (of_int i) * q)))"
  proof
    fix i assume "i \<in> set [1..\<lfloor>y\<rfloor>]"
    then have i: "1 \<le> i" and "i \<le> \<lfloor>y\<rfloor>" by simp_all
    then have "of_int i \<le> y" by (simp add: le_floor_iff)
    then have "of_int i \<le> roundValue (1 / q)" by (simp only: yv(1))
    from intTimesFloat_in_range(1)[OF q yv(2) i this]
    show "intTimesFloat i (Finite q) = Inr (Finite (roundValue (roundValue (of_int i) * q)))" .
  qed
  from appendSamples_map[OF this] q(1) y y0 show ?thesis
    by (simp add: initializeSamples_def)
qed

lemma rate_mono:
  assumes "0 < q" and "1 \<le> i" and "i \<le> j"
  shows "roundValue (roundValue (of_int i) * q) \<le> roundValue (roundValue (of_int j) * q)"
proof -
  from assms(2) have i0: "(0::rat) \<le> of_int i" by simp
  from assms(3) have "(of_int i :: rat) \<le> of_int j" by simp
  from roundValue_mono[OF i0 this]
  have "roundValue (of_int i) * q \<le> roundValue (of_int j) * q"
    using assms(1) by (intro mult_right_mono) simp_all
  moreover have "0 \<le> roundValue (of_int i) * q"
    using roundValue_nonneg[OF i0] assms(1) by simp
  ultimately show ?thesis by (intro roundValue_mono)
qed

lemma small_exponent:
  assumes "0 < x" and "x < 2"
  shows "\<bar>roundValue x - x\<bar> \<le> 1 / 2 ^ 53"
proof -
  from assms(2) have "x < 2 powi 1" by simp
  from ilog2_less[OF assms(1) this] have "exponentOf x - 1 \<le> - 53"
    by (simp add: exponentOf_def)
  then have "(2::rat) powi (exponentOf x - 1) \<le> 2 powi (- 53)"
    by (intro power_int_increasing) simp_all
  with roundValue_error[OF assms(1)] show ?thesis by simp
qed

lemma rate_strict:
  assumes q: "1 / 2 ^ 52 < q" "q \<le> 1"
    and i: "1 \<le> i" "i < j" "of_int j \<le> roundValue (1 / q)"
  shows "roundValue (roundValue (of_int i) * q) < roundValue (roundValue (of_int j) * q)"
proof -
  from q(1) have q0: "0 < q" by (rule less_trans[rotated]) simp
  from q(1) q0 have "1 / q \<le> 2 powi 52" by (simp add: field_simps)
  moreover from q0 have "0 \<le> 1 / q" by simp
  ultimately have "roundValue (1 / q) \<le> roundValue (2 powi 52)" by (intro roundValue_mono)
  also have "\<dots> = 2 ^ 52" using roundValue_pow2[of 52] by simp
  finally have "(of_int j :: rat) \<le> of_int (2 ^ 52)" using i(3) by simp
  then have j: "j \<le> 2 ^ 52" by (simp only: of_int_le_iff)
  from i j have "0 \<le> i" "i \<le> 2 ^ 53" "0 \<le> j" "j \<le> 2 ^ 53" by simp_all
  then have ri: "roundValue (of_int i) = of_int i" and rj: "roundValue (of_int j) = of_int j"
    using roundValue_grid[of 0 i] roundValue_grid[of 0 j] by simp_all
  define xi xj where "xi = of_int i * q" and "xj = of_int j * q"
  from i(1) q0 have xi0: "0 < xi" by (simp add: xi_def)
  from i(1,2) q0 have xj0: "0 < xj" by (simp add: xj_def)
  have "xj \<le> roundValue (1 / q) * q"
    unfolding xj_def using i(3) q0 by (intro mult_right_mono) simp_all
  also have "\<dots> \<le> 1 + 1 / 2 ^ 53" by (rule reciprocal_error[OF q0 q(2)])
  finally have xj2: "xj < 2" by simp
  from i(2) have "of_int i + (1::rat) \<le> of_int j" by linarith
  then have "(of_int i + 1) * q \<le> of_int j * q"
    using q0 by (intro mult_right_mono) simp_all
  then have gap: "xi + q \<le> xj" by (simp add: xi_def xj_def algebra_simps)
  with q0 xj2 have xi2: "xi < 2" by simp
  from small_exponent[OF xi0 xi2] have "roundValue xi \<le> xi + 1 / 2 ^ 53" by linarith
  moreover from small_exponent[OF xj0 xj2] have "xj - 1 / 2 ^ 53 \<le> roundValue xj" by linarith
  ultimately have "roundValue xi < roundValue xj" using gap q(1) by simp
  then show ?thesis by (simp add: ri rj xi_def xj_def)
qed

text \<open>
  The rounding decides the number of the samples: the float of \<^verbatim>\<open>0.1\<close> is above 1/10
  and the exact quotient is below 10, but the quotient of the floats is 10.0.
\<close>

lemma tenth_example:
  "round64 (1 / 10) = Finite (3602879701896397 / 36028797018963968) \<and>
   \<lfloor>1 / (3602879701896397 / 36028797018963968 :: rat)\<rfloor> = 9 \<and>
   round64 (1 / (3602879701896397 / 36028797018963968)) = Finite 10"
  by code_simp

lemma appendSamples_new:
  "appendSamples r is = Inr ss \<Longrightarrow> s \<in> set ss \<Longrightarrow> s = newSample (rate s)"
proof (induction "is" arbitrary: ss)
  case Nil
  then show ?case by simp
next
  case (Cons i "is")
  from Cons.prems(1) obtain x ss' where "intTimesFloat i r = Inr x"
    and a: "appendSamples r is = Inr ss'" and ss: "ss = newSample x # ss'"
    by (auto split: sum.splits)
  with Cons.prems(2) Cons.IH[OF a] show ?case by (auto simp: newSample_def)
qed

lemma initializeSamples_new:
  "initializeSamples r = Inr ss \<Longrightarrow> s \<in> set ss \<Longrightarrow> s = newSample (rate s)"
  by (auto simp: initializeSamples_def split: sum.splits dest: appendSamples_new)

lemma run_Inr:
  assumes "run fs random untranslatedLocation translatedLocation outputLocation r = Inr out"
  shows "\<not> optionalRate r \<le> Finite 0 \<and> \<not> Finite 1 < optionalRate r \<and>
         (\<exists>ss st. initializeSamples (optionalRate r) = Inr ss \<and>
               generateRarefaction random (the (fs untranslatedLocation))
                 (the (fs translatedLocation)) ss = Inr st \<and>
               finalSamples out = samples st) \<and>
         writeResults (finalSamples out) = Inr (written out)"
  using assms
  by (auto simp: run_def Let_def split: if_splits sum.splits)

text \<open>
  C3 (the sample set), as the code has it. For a rate \<open>q\<close> in (0,1], either \<open>1 / q\<close>
  rounds to infinity and \<^verbatim>\<open>int\<close> raises \<open>OverflowError\<close>, or \<open>1 / q\<close> rounds to a double
  \<open>y\<close> and the samples are built before the pass: \<open>\<lfloor>y\<rfloor>\<close> new samples (no reads, empty
  dictionaries), at least one, the sample of index \<open>i\<close> at the rate that the product
  \<^verbatim>\<open>(i + 1) * rate\<close> has in double arithmetic. Every rate is in (0,1]; the rates are in
  non-decreasing order, and in strictly increasing order when the rate is above
  \<open>1 / 2 ^ 52\<close>. The pass changes neither the number of the samples nor their rates, so
  the samples of a run that returns are at these rates. Nothing makes the last rate 1.0.
\<close>

theorem sample_set:
  assumes "0 < q" and "q \<le> 1"
  shows "(round64 (1 / q) = PInf \<longrightarrow> initializeSamples (Finite q) = Inl OverflowError) \<and>
         (\<forall>y. round64 (1 / q) = Finite y \<longrightarrow>
            (\<exists>ss. initializeSamples (Finite q) = Inr ss \<and>
               length ss = nat \<lfloor>y\<rfloor> \<and> 1 \<le> \<lfloor>y\<rfloor> \<and>
               (\<forall>i < length ss.
                  intTimesFloat (int i + 1) (Finite q) = Inr (rate (ss ! i)) \<and>
                  ss ! i = newSample (rate (ss ! i)) \<and>
                  Finite 0 < rate (ss ! i) \<and> rate (ss ! i) \<le> Finite 1) \<and>
               sorted_wrt (\<le>) (map rate ss) \<and>
               (1 / 2 ^ 52 < q \<longrightarrow> sorted_wrt (<) (map rate ss)) \<and>
               (\<forall>st. generateRarefaction random untranslatedFile translatedFile ss = Inr st \<longrightarrow>
                  map rate (samples st) = map rate ss) \<and>
               (\<forall>out. run fs random untranslatedLocation translatedLocation outputLocation
                        (Some (Finite q)) = Inr out \<longrightarrow>
                  map rate (finalSamples out) = map rate ss)))"
proof (intro conjI allI impI)
  assume "round64 (1 / q) = PInf"
  then show "initializeSamples (Finite q) = Inl OverflowError"
    by (rule initializeSamples_overflow[OF assms(1)])
next
  fix y
  assume y: "round64 (1 / q) = Finite y"
  note yv = reciprocal_finite[OF assms(1) y]
  define f where "f i = roundValue (roundValue (of_int i) * q)" for i :: int
  define ss where "ss = map (\<lambda>i. newSample (Finite (f i))) [1..\<lfloor>y\<rfloor>]"
  have init: "initializeSamples (Finite q) = Inr ss"
    unfolding ss_def f_def by (rule initializeSamples_finite[OF assms y])
  from reciprocal_rounded_ge_one[OF assms] yv(1) have y1: "1 \<le> \<lfloor>y\<rfloor>"
    by (simp add: le_floor_iff)
  have len: "length ss = nat \<lfloor>y\<rfloor>" by (simp add: ss_def)
  have rates: "map rate ss = map (\<lambda>i. Finite (f i)) [1..\<lfloor>y\<rfloor>]"
    by (simp add: ss_def newSample_def comp_def)
  have inrange: "1 \<le> i \<and> of_int i \<le> roundValue (1 / q)" if "i \<in> set [1..\<lfloor>y\<rfloor>]" for i
  proof -
    from that have "1 \<le> i" and "i \<le> \<lfloor>y\<rfloor>" by simp_all
    then show ?thesis using yv(1) by (simp add: le_floor_iff)
  qed
  have each: "intTimesFloat (int i + 1) (Finite q) = Inr (rate (ss ! i)) \<and>
      ss ! i = newSample (rate (ss ! i)) \<and>
      Finite 0 < rate (ss ! i) \<and> rate (ss ! i) \<le> Finite 1" if "i < length ss" for i
  proof -
    from that len have i: "int i + 1 \<in> set [1..\<lfloor>y\<rfloor>]" by auto
    from that len have nth: "ss ! i = newSample (Finite (f (int i + 1)))"
      by (simp add: ss_def add.commute)
    from inrange[OF i] have a: "1 \<le> int i + 1" and b: "of_int (int i + 1) \<le> roundValue (1 / q)"
      by blast+
    note r = intTimesFloat_in_range[OF assms yv(2) a b]
    from r(1,2,3) show ?thesis
      unfolding nth by (simp add: newSample_def f_def)
  qed
  have sorted: "sorted_wrt (\<le>) (map rate ss)"
  proof -
    have "sorted_wrt (\<lambda>i j. Finite (f i) \<le> Finite (f j)) [1..\<lfloor>y\<rfloor>]"
    proof (rule sorted_wrt_mono_rel[OF _ sorted_wrt_upto])
      fix i j assume "i \<in> set [1..\<lfloor>y\<rfloor>]" "j \<in> set [1..\<lfloor>y\<rfloor>]" "i < j"
      then have "1 \<le> i" "i \<le> j" by simp_all
      from rate_mono[OF assms(1) this] show "Finite (f i) \<le> Finite (f j)"
        by (simp add: f_def)
    qed
    then show ?thesis by (simp add: rates sorted_wrt_map)
  qed
  have strict: "sorted_wrt (<) (map rate ss)" if "1 / 2 ^ 52 < q"
  proof -
    have "sorted_wrt (\<lambda>i j. Finite (f i) < Finite (f j)) [1..\<lfloor>y\<rfloor>]"
    proof (rule sorted_wrt_mono_rel[OF _ sorted_wrt_upto])
      fix i j assume i: "i \<in> set [1..\<lfloor>y\<rfloor>]" and j: "j \<in> set [1..\<lfloor>y\<rfloor>]" and "i < j"
      from inrange[OF i] inrange[OF j] \<open>i < j\<close>
      have "1 \<le> i" "i < j" "of_int j \<le> roundValue (1 / q)" by simp_all
      from rate_strict[OF that assms(2) this] show "Finite (f i) < Finite (f j)"
        by (simp add: f_def)
    qed
    then show ?thesis by (simp add: rates sorted_wrt_map)
  qed
  have pass: "map rate (samples st) = map rate ss"
    if "generateRarefaction random untranslatedFile translatedFile ss = Inr st" for st
    using that by (rule generateRarefaction_rates)
  have whole: "map rate (finalSamples out) = map rate ss"
    if "run fs random untranslatedLocation translatedLocation outputLocation (Some (Finite q)) = Inr out"
    for out
  proof -
    from assms(1) have "optionalRate (Some (Finite q)) = Finite q" by (simp add: optionalRate_def)
    with run_Inr[OF that] init obtain st where
      "generateRarefaction random (the (fs untranslatedLocation)) (the (fs translatedLocation)) ss = Inr st"
      and "finalSamples out = samples st"
      by auto
    then show ?thesis by (simp add: generateRarefaction_rates)
  qed
  from init len y1 each sorted strict pass whole
  show "\<exists>ss. initializeSamples (Finite q) = Inr ss \<and>
               length ss = nat \<lfloor>y\<rfloor> \<and> 1 \<le> \<lfloor>y\<rfloor> \<and>
               (\<forall>i < length ss.
                  intTimesFloat (int i + 1) (Finite q) = Inr (rate (ss ! i)) \<and>
                  ss ! i = newSample (rate (ss ! i)) \<and>
                  Finite 0 < rate (ss ! i) \<and> rate (ss ! i) \<le> Finite 1) \<and>
               sorted_wrt (\<le>) (map rate ss) \<and>
               (1 / 2 ^ 52 < q \<longrightarrow> sorted_wrt (<) (map rate ss)) \<and>
               (\<forall>st. generateRarefaction random untranslatedFile translatedFile ss = Inr st \<longrightarrow>
                  map rate (samples st) = map rate ss) \<and>
               (\<forall>out. run fs random untranslatedLocation translatedLocation outputLocation
                        (Some (Finite q)) = Inr out \<longrightarrow>
                  map rate (finalSamples out) = map rate ss)"
    by blast
qed

lemma example_reciprocal: "round64 (1 / (1 / 2)) = Finite 2"
  by code_simp

lemma example_initializeSamples: "initializeSamples (Finite (1 / 2)) = Inr exampleSamples"
  by code_simp

theorem sample_set_witness:
  "(0::rat) < 1 / 2 \<and> (1::rat) / 2 \<le> 1 \<and> round64 (1 / (1 / 2)) = Finite 2 \<and>
   length exampleSamples = nat \<lfloor>2::rat\<rfloor> \<and>
   intTimesFloat (int 1 + 1) (Finite (1 / 2)) = Inr (rate (exampleSamples ! 1)) \<and>
   sorted_wrt (<) (map rate exampleSamples)"
proof -
  have p: "(0::rat) < 1 / 2" by simp
  have q: "(1::rat) / 2 \<le> 1" by simp
  have s: "(1::rat) / 2 ^ 52 < 1 / 2" by simp
  have l: "1 < length exampleSamples" by (simp add: exampleSamples_def)
  from sample_set[OF p q, THEN conjunct2, rule_format, OF example_reciprocal,
      of exampleRandom exampleUntranslated exampleTranslated exampleFiles
        "''u.txt''" "''t.txt''" "''out.csv''"]
  obtain ss where init: "initializeSamples (Finite (1 / 2)) = Inr ss"
    and len: "length ss = nat \<lfloor>2::rat\<rfloor>"
    and each: "\<forall>i < length ss.
           intTimesFloat (int i + 1) (Finite (1 / 2)) = Inr (rate (ss ! i)) \<and>
           ss ! i = newSample (rate (ss ! i)) \<and>
           Finite 0 < rate (ss ! i) \<and> rate (ss ! i) \<le> Finite 1"
    and strict: "1 / 2 ^ 52 < (1::rat) / 2 \<longrightarrow> sorted_wrt (<) (map rate ss)"
    by blast
  from init example_initializeSamples have ss: "ss = exampleSamples" by simp
  from each l have "intTimesFloat (int 1 + 1) (Finite (1 / 2)) = Inr (rate (exampleSamples ! 1))"
    unfolding ss by blast
  moreover from strict s have "sorted_wrt (<) (map rate exampleSamples)"
    unfolding ss by blast
  moreover from len have "length exampleSamples = nat \<lfloor>2::rat\<rfloor>" unfolding ss .
  ultimately show ?thesis using p q example_reciprocal by blast
qed

text \<open>
  The claim as the specification states it, with rates up to and including 1.0, fails
  at the rate 0.75: \<^verbatim>\<open>int(1 / 0.75)\<close> is 1 and the only sample is at 0.75.
\<close>

theorem sample_set_counterexample:
  "initializeSamples (optionalRate (Some (Finite (3 / 4)))) = Inr [newSample (Finite (3 / 4))] \<and>
   rate (last [newSample (Finite (3 / 4))]) \<noteq> Finite 1 \<and>
   \<not> isl (run exampleFiles exampleRandom ''u.txt'' ''t.txt'' ''out.csv'' (Some (Finite (3 / 4)))) \<and>
   map rate (finalSamples (projr
     (run exampleFiles exampleRandom ''u.txt'' ''t.txt'' ''out.csv'' (Some (Finite (3 / 4)))))) =
     [Finite (3 / 4)]"
  by code_simp

text \<open>
  Below \<open>1 / 2 ^ 52\<close> the order need not be strict: at the rate \<open>1 / 2 ^ 60\<close> the
  integers \<open>2 ^ 53\<close> and \<open>2 ^ 53 + 1\<close> give the same rate.
\<close>

lemma rates_not_strict_example:
  "intTimesFloat (2 ^ 53) (Finite (1 / 2 ^ 60)) = Inr (Finite (1 / 2 ^ 7)) \<and>
   intTimesFloat (2 ^ 53 + 1) (Finite (1 / 2 ^ 60)) = Inr (Finite (1 / 2 ^ 7))"
  by code_simp

subsection \<open>writeResults\<close>

lemma subscript_last:
  "ss \<noteq> [] \<Longrightarrow> subscript ss (int (length ss) - 1) = Inr (last ss)"
  by (cases ss rule: rev_cases) (auto simp: subscript_def nth_append)

lemma writeRow_nonempty:
  assumes "ss \<noteq> []"
  shows "writeRow heading f ss = Inr (heading, map f ss)"
proof -
  have "map f (take (length ss - 1) ss) @ [f (last ss)] = map f ss"
    using assms by (cases ss rule: rev_cases) auto
  then show ?thesis using assms by (simp add: writeRow_def Let_def subscript_last)
qed

lemma writeRows_nonempty:
  "ss \<noteq> [] \<Longrightarrow> writeRows bs ss = Inr (map (\<lambda>(heading, f). (heading, map f ss)) bs)"
  by (induction bs) (auto simp: writeRow_nonempty)

lemma writeResults_nonempty:
  "ss \<noteq> [] \<Longrightarrow> writeResults ss = Inr (map (\<lambda>(heading, f). (heading, map f ss)) blocks)"
  by (simp add: writeResults_def writeRows_nonempty)

lemma writeResults_empty: "writeResults [] = Inl IndexError"
  by (simp add: writeResults_def blocks_def writeRow_def subscript_def)

lemma smallestDouble_range: "0 < smallestDouble" "smallestDouble \<le> 1"
proof -
  show "0 < smallestDouble" unfolding smallestDouble_def by (rule zero_less_power_int) simp
  show "smallestDouble \<le> 1" unfolding smallestDouble_def
    using power_int_increasing[of "- 1074" 0 "2::rat"] by (simp del: power_int_numeral_neg_numeral)
qed

lemma smallestDouble_reciprocal: "round64 (1 / smallestDouble) = PInf"
proof -
  have r: "1 / smallestDouble = 2 powi 1074"
    unfolding smallestDouble_def by (simp add: power_int_minus_divide del: power_int_numeral_neg_numeral power_int_numeral)
  have "overflowBound \<le> (2::rat) powi 1074"
    unfolding overflowBound_def by (intro power_int_increasing) simp_all
  moreover have "roundValue (2 powi 1074) = 2 powi 1074" by (rule roundValue_pow2) simp
  moreover have "(0::rat) \<le> 2 powi 1074" by (rule zero_le_power_int) simp
  ultimately show ?thesis
    unfolding r using round64_nonneg[of "2 powi 1074"] by (simp del: power_int_numeral)
qed

text \<open>
  C10 (the last sample exists), as the code has it. For a rate \<open>q\<close> in (0,1], either
  \<open>1 / q\<close> rounds to infinity, and then \<^verbatim>\<open>int\<close> raises \<open>OverflowError\<close>: no sample is
  built and a run with both input files raises this error before \<^verbatim>\<open>writeResults\<close>; or
  the list of samples has at least one element, and \<^verbatim>\<open>writeResults\<close> on the samples that
  the pass returns raises no \<open>IndexError\<close>: it writes the ten rows, in the order of the
  source, each with one value for every sample.
\<close>

theorem writeResults_in_bounds:
  assumes "0 < q" and "q \<le> 1"
  shows "(round64 (1 / q) = PInf \<and> initializeSamples (Finite q) = Inl OverflowError \<and>
            (isfile fs untranslatedLocation \<and> isfile fs translatedLocation \<longrightarrow>
               run fs random untranslatedLocation translatedLocation outputLocation (Some (Finite q)) =
                 Inl OverflowError)) \<or>
         (\<exists>ss. round64 (1 / q) \<noteq> PInf \<and> initializeSamples (Finite q) = Inr ss \<and> 1 \<le> length ss \<and>
            (\<forall>st. generateRarefaction random untranslatedFile translatedFile ss = Inr st \<longrightarrow>
               (\<exists>rows. writeResults (samples st) = Inr rows \<and>
                  map fst rows = [''rates'', ''reads'', ''domains'', ''phylums'', ''classes'',
                                  ''orders'', ''families'', ''genera'', ''species'', ''subspecies''] \<and>
                  (\<forall>row \<in> set rows. length (snd row) = length ss))))"
proof (cases "round64 (1 / q) = PInf")
  case True
  from initializeSamples_overflow[OF assms(1) True]
  have i: "initializeSamples (Finite q) = Inl OverflowError" .
  from assms have c: "\<not> Finite q \<le> Finite 0" "\<not> Finite 1 < Finite q" by simp_all
  from assms(1) have o: "optionalRate (Some (Finite q)) = Finite q" by (simp add: optionalRate_def)
  have "run fs random untranslatedLocation translatedLocation outputLocation (Some (Finite q)) =
      Inl OverflowError"
    if "isfile fs untranslatedLocation \<and> isfile fs translatedLocation"
    using that i c o by (simp add: run_def)
  with True i show ?thesis by blast
next
  case False
  with reciprocal_cases[OF assms(1)] have y: "round64 (1 / q) = Finite (roundValue (1 / q))"
    by blast
  define ss where
    "ss = map (\<lambda>i. newSample (Finite (roundValue (roundValue (of_int i) * q))))
            [1..\<lfloor>roundValue (1 / q)\<rfloor>]"
  have init: "initializeSamples (Finite q) = Inr ss"
    unfolding ss_def by (rule initializeSamples_finite[OF assms y])
  have len: "length ss = nat \<lfloor>roundValue (1 / q)\<rfloor>" by (simp add: ss_def)
  from reciprocal_rounded_ge_one[OF assms] have one: "1 \<le> \<lfloor>roundValue (1 / q)\<rfloor>"
    by (simp add: le_floor_iff)
  from one have "1 \<le> nat \<lfloor>roundValue (1 / q)\<rfloor>" by linarith
  then have l1: "1 \<le> length ss" by (simp only: len)
  have "\<exists>rows. writeResults (samples st) = Inr rows \<and>
          map fst rows = [''rates'', ''reads'', ''domains'', ''phylums'', ''classes'',
                          ''orders'', ''families'', ''genera'', ''species'', ''subspecies''] \<and>
          (\<forall>row \<in> set rows. length (snd row) = length ss)"
    if g: "generateRarefaction random untranslatedFile translatedFile ss = Inr st" for st
  proof -
    from generateRarefaction_rates[OF g] have l: "length (samples st) = length ss"
      by (metis length_map)
    with l1 have "samples st \<noteq> []" by auto
    from writeResults_nonempty[OF this] l show ?thesis by (auto simp: blocks_def)
  qed
  with False init l1 show ?thesis by blast
qed

theorem writeResults_in_bounds_witness:
  "(0::rat) < 1 / 2 \<and> (1::rat) / 2 \<le> 1 \<and> round64 (1 / (1 / 2)) \<noteq> PInf \<and>
   1 \<le> length exampleSamples \<and>
   map fst (projr (writeResults (samples (projr (generateRarefaction exampleRandom
      exampleUntranslated exampleTranslated exampleSamples))))) =
     [''rates'', ''reads'', ''domains'', ''phylums'', ''classes'',
      ''orders'', ''families'', ''genera'', ''species'', ''subspecies'']"
proof -
  have p: "(0::rat) < 1 / 2" by simp
  have q: "(1::rat) / 2 \<le> 1" by simp
  have f: "round64 (1 / (1 / 2)) \<noteq> PInf" using example_reciprocal by simp
  have pass: "generateRarefaction exampleRandom exampleUntranslated exampleTranslated
      exampleSamples =
    Inr (projr (generateRarefaction exampleRandom exampleUntranslated exampleTranslated
      exampleSamples))"
    by code_simp
  from writeResults_in_bounds[OF p q, of exampleFiles "''u.txt''" "''t.txt''" exampleRandom
      "''out.csv''" exampleUntranslated exampleTranslated] f
  obtain ss where init: "initializeSamples (Finite (1 / 2)) = Inr ss"
    and len: "1 \<le> length ss"
    and rows: "\<forall>st. generateRarefaction exampleRandom exampleUntranslated exampleTranslated ss =
        Inr st \<longrightarrow>
      (\<exists>rows. writeResults (samples st) = Inr rows \<and>
         map fst rows = [''rates'', ''reads'', ''domains'', ''phylums'', ''classes'',
                         ''orders'', ''families'', ''genera'', ''species'', ''subspecies''] \<and>
         (\<forall>row \<in> set rows. length (snd row) = length ss))"
    by blast
  from init example_initializeSamples have ss: "ss = exampleSamples" by simp
  from rows[unfolded ss, rule_format, OF pass]
  obtain rows where "writeResults (samples (projr (generateRarefaction exampleRandom
      exampleUntranslated exampleTranslated exampleSamples))) = Inr rows"
    and "map fst rows = [''rates'', ''reads'', ''domains'', ''phylums'', ''classes'',
      ''orders'', ''families'', ''genera'', ''species'', ''subspecies'']"
    and "\<forall>row \<in> set rows. length (snd row) = length exampleSamples"
    by (elim exE conjE)
  with p q f len[unfolded ss] show ?thesis by simp
qed

text \<open>
  The claim for every rate in (0,1] fails at the smallest positive double: its inverse
  is beyond the largest double, and the run raises \<open>OverflowError\<close>.
\<close>

theorem writeResults_in_bounds_counterexample:
  "Finite 0 < Finite smallestDouble \<and> Finite smallestDouble \<le> Finite 1 \<and>
   initializeSamples (Finite smallestDouble) = Inl OverflowError \<and>
   run exampleFiles exampleRandom ''u.txt'' ''t.txt'' ''out.csv'' (Some (Finite smallestDouble)) =
     Inl OverflowError"
proof -
  note r = smallestDouble_range
  from initializeSamples_overflow[OF r(1) smallestDouble_reciprocal]
  have i: "initializeSamples (Finite smallestDouble) = Inl OverflowError" .
  from r have c: "\<not> Finite smallestDouble \<le> Finite 0" "\<not> Finite 1 < Finite smallestDouble"
    by simp_all
  from r(1) have o: "optionalRate (Some (Finite smallestDouble)) = Finite smallestDouble"
    by (simp add: optionalRate_def)
  have "run exampleFiles exampleRandom ''u.txt'' ''t.txt'' ''out.csv'' (Some (Finite smallestDouble)) =
     Inl OverflowError"
    using i c o by (simp add: run_def isfile_def exampleFiles_def)
  with r i show ?thesis by simp
qed

subsection \<open>run\<close>

lemma run_rejects_rate:
  assumes "isfile fs untranslatedLocation" and "isfile fs translatedLocation"
    and "r \<noteq> Finite 0" and "r \<le> Finite 0 \<or> Finite 1 < r"
  shows "run fs random untranslatedLocation translatedLocation outputLocation (Some r) =
           Inl (RateNotInRange r)"
  using assms by (auto simp: run_def optionalRate_def Let_def)

lemma run_rate_zero_default:
  "run fs random untranslatedLocation translatedLocation outputLocation (Some (Finite 0)) =
     run fs random untranslatedLocation translatedLocation outputLocation None"
  by (simp add: run_def optionalRate_def)

lemma run_not_a_number:
  assumes "isfile fs untranslatedLocation" and "isfile fs translatedLocation"
  shows "run fs random untranslatedLocation translatedLocation outputLocation (Some NaN) =
           Inl ValueError"
  using assms by (simp add: run_def optionalRate_def initializeSamples_def)

lemma readStep_any_samples:
  assumes "readStep random translatedFile st line = Inr st1"
    and "translatedPos st0 = translatedPos st" and "drawn st0 = drawn st"
  shows "\<exists>st2. readStep random translatedFile st0 line = Inr st2 \<and>
           translatedPos st2 = translatedPos st1 \<and> drawn st2 = drawn st1"
  using assms
  by (auto simp: readStep_def Let_def split: list.splits if_splits sum.splits)

lemma readLoop_any_samples:
  "readLoop random translatedFile st untranslatedFile = Inr st' \<Longrightarrow>
   translatedPos st0 = translatedPos st \<Longrightarrow> drawn st0 = drawn st \<Longrightarrow>
   \<exists>st''. readLoop random translatedFile st0 untranslatedFile = Inr st''"
proof (induction untranslatedFile arbitrary: st st0)
  case Nil
  then show ?case by simp
next
  case (Cons l ls)
  from Cons.prems(1) obtain st1 where s1: "readStep random translatedFile st l = Inr st1"
    and r: "readLoop random translatedFile st1 ls = Inr st'"
    by (auto split: sum.splits)
  from readStep_any_samples[OF s1 Cons.prems(2,3)] obtain st2 where
    s2: "readStep random translatedFile st0 l = Inr st2"
    and "translatedPos st2 = translatedPos st1" "drawn st2 = drawn st1"
    by blast
  from Cons.IH[OF r this(2,3)] s2 show ?case by simp
qed

lemma generateRarefaction_any_samples:
  assumes "generateRarefaction random untranslatedFile translatedFile ss = Inr st"
  shows "\<exists>st'. generateRarefaction random untranslatedFile translatedFile ss' = Inr st'"
  using assms
    readLoop_any_samples[of random translatedFile "\<lparr>samples = ss, translatedPos = 0, drawn = 0\<rparr>"
      untranslatedFile st "\<lparr>samples = ss', translatedPos = 0, drawn = 0\<rparr>"]
  by (simp add: generateRarefaction_def)

lemma DEFAULT_RATE_value: "DEFAULT_RATE = Finite (3602879701896397 / 72057594037927936)"
  by code_simp

lemma DEFAULT_RATE_reciprocal:
  "round64 (1 / (3602879701896397 / 72057594037927936)) = Finite 20"
  by code_simp

lemma example_pass_returns:
  "generateRarefaction exampleRandom exampleUntranslated exampleTranslated [] =
     Inr (projr (generateRarefaction exampleRandom exampleUntranslated exampleTranslated []))"
  by code_simp

text \<open>
  C2 (rates outside (0,1]). A float at most zero or above one makes \<^verbatim>\<open>run\<close> raise
  (\<open>run_rejects_rate\<close>), but the rate zero does not: \<^verbatim>\<open>not rate\<close> holds for 0.0, so
  line 522 replaces it by the default rate before the check of line 525, and the run
  goes on with the twenty samples of the rate 0.05.
\<close>

theorem rate_zero_accepted:
  "run exampleFiles exampleRandom ''u.txt'' ''t.txt'' ''out.csv'' (Some (Finite 0)) =
     run exampleFiles exampleRandom ''u.txt'' ''t.txt'' ''out.csv'' (Some DEFAULT_RATE) \<and>
   map_sum id (\<lambda>out. length (finalSamples out))
     (run exampleFiles exampleRandom ''u.txt'' ''t.txt'' ''out.csv'' (Some (Finite 0))) = Inr 20"
proof -
  define dq :: rat where "dq = 3602879701896397 / 72057594037927936"
  have d: "DEFAULT_RATE = Finite dq" unfolding dq_def by (rule DEFAULT_RATE_value)
  have dq: "0 < dq" "dq \<le> 1" by (simp_all add: dq_def)
  have o: "optionalRate (Some (Finite 0)) = Finite dq" "optionalRate (Some DEFAULT_RATE) = Finite dq"
    using dq(1) by (simp_all add: optionalRate_def d)
  have same: "run exampleFiles exampleRandom ''u.txt'' ''t.txt'' ''out.csv'' (Some (Finite 0)) =
     run exampleFiles exampleRandom ''u.txt'' ''t.txt'' ''out.csv'' (Some DEFAULT_RATE)"
    by (simp add: run_def o)
  have y: "round64 (1 / dq) = Finite 20" unfolding dq_def by (rule DEFAULT_RATE_reciprocal)
  define ss where
    "ss = map (\<lambda>i. newSample (Finite (roundValue (roundValue (of_int i) * dq)))) [1..\<lfloor>20::rat\<rfloor>]"
  have init: "initializeSamples (Finite dq) = Inr ss"
    unfolding ss_def by (rule initializeSamples_finite[OF dq y])
  have len: "length ss = 20" by (simp add: ss_def)
  from generateRarefaction_any_samples[OF example_pass_returns, of ss] obtain st where
    g: "generateRarefaction exampleRandom exampleUntranslated exampleTranslated ss = Inr st"
    by blast
  from generateRarefaction_rates[OF g] have l: "length (samples st) = 20"
    using len by (metis length_map)
  then have "samples st \<noteq> []" by auto
  from writeResults_nonempty[OF this] obtain rows where w: "writeResults (samples st) = Inr rows"
    by blast
  from dq have c: "\<not> Finite dq \<le> Finite 0" "\<not> Finite 1 < Finite dq" by simp_all
  have "run exampleFiles exampleRandom ''u.txt'' ''t.txt'' ''out.csv'' (Some (Finite 0)) =
      Inr \<lparr>finalSamples = samples st, written = rows\<rparr>"
    using init g w c by (simp add: run_def o isfile_def exampleFiles_def)
  then have "map_sum id (\<lambda>out. length (finalSamples out))
     (run exampleFiles exampleRandom ''u.txt'' ''t.txt'' ''out.csv'' (Some (Finite 0))) = Inr 20"
    using l by simp
  with same show ?thesis by (rule conjI)
qed

subsection \<open>Distinct counts\<close>

lemma keys_updateDictionary:
  "fst ` set (updateDictionary d rs label) =
     fst ` set d \<union> {t \<in> set rs. startswith t (label @ KRAKEN_SEPARATOR)}"
  by (induction rs arbitrary: d) (auto simp: dom_update split: option.splits)

lemma distinct_updateDictionary:
  "distinct (map fst d) \<Longrightarrow> distinct (map fst (updateDictionary d rs label))"
  by (induction rs arbitrary: d) (auto simp: distinct_update split: option.splits)

lemma rate_tally: "rate (tally s recs) = rate s"
  by (induction s recs rule: tally.induct) (simp_all add: rate_operate)

lemma tally_keys:
  assumes f: "\<And>x rk s. f (operate x rk s) =
     (if included x s then (case rk of Some rs \<Rightarrow> updateDictionary (f s) rs label | None \<Rightarrow> f s)
      else f s)"
  shows "distinct (map fst (f s)) \<Longrightarrow>
     distinct (map fst (f (tally s recs))) \<and>
     fst ` set (f (tally s recs)) = fst ` set (f s) \<union> distinctTokens label (rate s) recs"
proof (induction s recs rule: tally.induct)
  case (1 s)
  then show ?case by (simp add: distinctTokens_def)
next
  case (2 s x rk recs)
  have d: "distinct (map fst (f (operate x rk s)))"
    using "2.prems" by (simp add: f distinct_updateDictionary split: option.splits)
  have k: "fst ` set (f (operate x rk s)) \<union> distinctTokens label (rate s) recs =
           fst ` set (f s) \<union> distinctTokens label (rate s) ((x, rk) # recs)"
    by (cases rk) (auto simp: f keys_updateDictionary distinctTokens_def included_def)
  from "2.IH"[OF d] k show ?case by (simp add: rate_operate)
qed

lemma tally_count:
  assumes f: "\<And>x rk s. f (operate x rk s) =
     (if included x s then (case rk of Some rs \<Rightarrow> updateDictionary (f s) rs label | None \<Rightarrow> f s)
      else f s)"
    and e: "f (newSample r) = []"
  shows "length (f (tally (newSample r) recs)) = card (distinctTokens label r recs)"
proof -
  have r: "rate (newSample r) = r" by (simp add: newSample_def)
  from tally_keys[of f label "newSample r" recs, OF f] e r
  have d: "distinct (map fst (f (tally (newSample r) recs)))"
    and k: "fst ` set (f (tally (newSample r) recs)) = distinctTokens label r recs"
    by simp_all
  from d have "card (set (map fst (f (tally (newSample r) recs)))) =
      length (map fst (f (tally (newSample r) recs)))"
    by (rule distinct_card)
  with k show ?thesis by simp
qed

lemma operate_dictionaries:
  "domainDictionary (operate x rk s) =
     (if included x s then (case rk of Some rs \<Rightarrow> updateDictionary (domainDictionary s) rs DOMAIN | None \<Rightarrow> domainDictionary s) else domainDictionary s)"
  "phylumDictionary (operate x rk s) =
     (if included x s then (case rk of Some rs \<Rightarrow> updateDictionary (phylumDictionary s) rs PHYLUM | None \<Rightarrow> phylumDictionary s) else phylumDictionary s)"
  "classDictionary (operate x rk s) =
     (if included x s then (case rk of Some rs \<Rightarrow> updateDictionary (classDictionary s) rs CLASS | None \<Rightarrow> classDictionary s) else classDictionary s)"
  "orderDictionary (operate x rk s) =
     (if included x s then (case rk of Some rs \<Rightarrow> updateDictionary (orderDictionary s) rs ORDER | None \<Rightarrow> orderDictionary s) else orderDictionary s)"
  "familyDictionary (operate x rk s) =
     (if included x s then (case rk of Some rs \<Rightarrow> updateDictionary (familyDictionary s) rs FAMILY | None \<Rightarrow> familyDictionary s) else familyDictionary s)"
  "generaDictionary (operate x rk s) =
     (if included x s then (case rk of Some rs \<Rightarrow> updateDictionary (generaDictionary s) rs GENERA | None \<Rightarrow> generaDictionary s) else generaDictionary s)"
  "speciesDictionary (operate x rk s) =
     (if included x s then (case rk of Some rs \<Rightarrow> updateDictionary (speciesDictionary s) rs SPECIES | None \<Rightarrow> speciesDictionary s) else speciesDictionary s)"
  "subspeciesDictionary (operate x rk s) =
     (if included x s then (case rk of Some rs \<Rightarrow> updateDictionary (subspeciesDictionary s) rs SUBSPECIES | None \<Rightarrow> subspeciesDictionary s) else subspeciesDictionary s)"
  by (simp_all add: operate_def Let_def updateDictionaries_def split: option.splits)

lemma readStep_record:
  assumes "readStep random translatedFile st l = Inr st1"
  shows "\<exists>rk. readRecords random translatedFile (drawn st) (translatedPos st) (l # untranslatedFile) =
           (random (drawn st), rk) # readRecords random translatedFile (drawn st1) (translatedPos st1) untranslatedFile \<and>
         samples st1 = map (operate (random (drawn st)) rk) (samples st)"
proof (cases l)
  case Nil
  with assms show ?thesis by (simp add: readStep_def)
next
  case (Cons c cs)
  show ?thesis
  proof (cases "[c] = CLASSIFIED")
    case True
    with assms Cons obtain rankings where t: "tokenize (readline translatedFile (translatedPos st)) = Inr rankings"
      and "st1 = \<lparr>samples = map (operate (random (drawn st)) (Some rankings)) (samples st),
              translatedPos = translatedPos st + 1, drawn = drawn st + 1\<rparr>"
      by (auto simp: readStep_def Let_def split: sum.splits)
    with True Cons show ?thesis by (simp add: classified_def)
  next
    case False
    with assms Cons have
      "st1 = \<lparr>samples = map (operate (random (drawn st)) None) (samples st),
              translatedPos = translatedPos st, drawn = drawn st + 1\<rparr>"
      by (auto simp: readStep_def Let_def)
    with False Cons show ?thesis by (simp add: classified_def)
  qed
qed

lemma readLoop_tally:
  "readLoop random translatedFile st untranslatedFile = Inr st' \<Longrightarrow>
     samples st' =
       map (\<lambda>s. tally s (readRecords random translatedFile (drawn st) (translatedPos st) untranslatedFile)) (samples st)"
proof (induction untranslatedFile arbitrary: st)
  case Nil
  then show ?case by simp
next
  case (Cons l untranslatedFile)
  from Cons.prems obtain st1 where s1: "readStep random translatedFile st l = Inr st1"
    and r: "readLoop random translatedFile st1 untranslatedFile = Inr st'"
    by (auto split: sum.splits)
  from readStep_record[OF s1, of untranslatedFile] obtain rk where
    rec: "readRecords random translatedFile (drawn st) (translatedPos st) (l # untranslatedFile) =
           (random (drawn st), rk) # readRecords random translatedFile (drawn st1) (translatedPos st1) untranslatedFile"
    and ss: "samples st1 = map (operate (random (drawn st)) rk) (samples st)"
    by blast
  from Cons.IH[OF r] show ?case unfolding rec ss by (simp add: comp_def)
qed

lemma generateRarefaction_tally:
  "generateRarefaction random u translatedFile ss = Inr st \<Longrightarrow>
     samples st = map (\<lambda>s. tally s (readRecords random translatedFile 0 0 u)) ss"
  by (auto simp: generateRarefaction_def dest: readLoop_tally)

lemma tally_newSample_counts:
  "length (domainDictionary (tally (newSample q) recs)) = card (distinctTokens DOMAIN q recs)"
  "length (phylumDictionary (tally (newSample q) recs)) = card (distinctTokens PHYLUM q recs)"
  "length (classDictionary (tally (newSample q) recs)) = card (distinctTokens CLASS q recs)"
  "length (orderDictionary (tally (newSample q) recs)) = card (distinctTokens ORDER q recs)"
  "length (familyDictionary (tally (newSample q) recs)) = card (distinctTokens FAMILY q recs)"
  "length (generaDictionary (tally (newSample q) recs)) = card (distinctTokens GENERA q recs)"
  "length (speciesDictionary (tally (newSample q) recs)) = card (distinctTokens SPECIES q recs)"
  "length (subspeciesDictionary (tally (newSample q) recs)) = card (distinctTokens SUBSPECIES q recs)"
  by (rule tally_count, rule operate_dictionaries, simp add: newSample_def)+

text \<open>The example of the claim: the tokens \<open>d__A\<close>, \<open>d__A\<close> and \<open>d__B\<close> give two keys.\<close>

lemma distinct_count_example:
  "updateDictionary [] [''d__A'', ''d__A'', ''d__B''] DOMAIN = [(''d__A'', 2), (''d__B'', 1)] \<and>
   length (updateDictionary [] [''d__A'', ''d__A'', ''d__B''] DOMAIN) = 2"
  by code_simp

text \<open>
  C6 (distinct counts). In a run that returns, the eight rows that \<^verbatim>\<open>writeResults\<close>
  writes after the rates and the read counts hold, for every sample, the number of
  distinct rank tokens of the row's rank (the tokens that start with the label of the rank
  and the separator) among the rank paths of the classified reads that the sample
  includes, however often a token was observed.
\<close>

theorem distinct_count_correct:
  assumes "run fs random untranslatedLocation translatedLocation outputLocation r = Inr out"
    and "recs = readRecords random (the (fs translatedLocation)) 0 0 (the (fs untranslatedLocation))"
  shows "drop 2 (written out) =
     map (\<lambda>(heading, label).
            (heading, map (\<lambda>s. CountCell (int (card (distinctTokens label (rate s) recs))))
                        (finalSamples out)))
       [(''domains'', DOMAIN), (''phylums'', PHYLUM), (''classes'', CLASS), (''orders'', ORDER),
        (''families'', FAMILY), (''genera'', GENERA), (''species'', SPECIES),
        (''subspecies'', SUBSPECIES)]"
proof -
  from run_Inr[OF assms(1)] obtain ss0 st where
    init: "initializeSamples (optionalRate r) = Inr ss0" and
    g: "generateRarefaction random (the (fs untranslatedLocation)) (the (fs translatedLocation))
          ss0 = Inr st" and
    fin: "finalSamples out = samples st" and
    w: "writeResults (finalSamples out) = Inr (written out)"
    by blast
  have ne: "finalSamples out \<noteq> []"
    using w writeResults_empty by (cases "finalSamples out") auto
  have shape: "\<exists>q. s = tally (newSample q) recs \<and> rate s = q" if "s \<in> set (finalSamples out)" for s
  proof -
    from that generateRarefaction_tally[OF g] fin assms(2)
    obtain s0 where s0: "s0 \<in> set ss0" and s: "s = tally s0 recs"
      by auto
    from initializeSamples_new[OF init s0] have "s0 = newSample (rate s0)" .
    with s have "s = tally (newSample (rate s0)) recs \<and> rate s = rate s0"
      by (simp add: rate_tally)
    then show ?thesis by blast
  qed
  have c: "length (domainDictionary s) = card (distinctTokens DOMAIN (rate s) recs)"
     "length (phylumDictionary s) = card (distinctTokens PHYLUM (rate s) recs)"
     "length (classDictionary s) = card (distinctTokens CLASS (rate s) recs)"
     "length (orderDictionary s) = card (distinctTokens ORDER (rate s) recs)"
     "length (familyDictionary s) = card (distinctTokens FAMILY (rate s) recs)"
     "length (generaDictionary s) = card (distinctTokens GENERA (rate s) recs)"
     "length (speciesDictionary s) = card (distinctTokens SPECIES (rate s) recs)"
     "length (subspeciesDictionary s) = card (distinctTokens SUBSPECIES (rate s) recs)"
    if "s \<in> set (finalSamples out)" for s
  proof -
    from shape[OF that] obtain q where s: "s = tally (newSample q) recs" and q: "rate s = q"
      by blast
    show "length (domainDictionary s) = card (distinctTokens DOMAIN (rate s) recs)"
     "length (phylumDictionary s) = card (distinctTokens PHYLUM (rate s) recs)"
     "length (classDictionary s) = card (distinctTokens CLASS (rate s) recs)"
     "length (orderDictionary s) = card (distinctTokens ORDER (rate s) recs)"
     "length (familyDictionary s) = card (distinctTokens FAMILY (rate s) recs)"
     "length (generaDictionary s) = card (distinctTokens GENERA (rate s) recs)"
     "length (speciesDictionary s) = card (distinctTokens SPECIES (rate s) recs)"
     "length (subspeciesDictionary s) = card (distinctTokens SUBSPECIES (rate s) recs)"
      unfolding q unfolding s by (rule tally_newSample_counts)+
  qed
  from w writeResults_nonempty[OF ne]
  have "written out = map (\<lambda>(heading, f). (heading, map f (finalSamples out))) blocks" by simp
  then show ?thesis
    by (simp add: blocks_def c cong: map_cong)
qed

theorem distinct_count_correct_witness:
  "drop 2 (written (projr (run exampleFiles exampleRandom ''u.txt'' ''t.txt'' ''out.csv'' (Some (Finite (1 / 2)))))) =
     map (\<lambda>(heading, label).
            (heading, map (\<lambda>s. CountCell (int (card (distinctTokens label (rate s)
                (readRecords exampleRandom (the (exampleFiles ''t.txt'')) 0 0 (the (exampleFiles ''u.txt'')))))))
              (finalSamples (projr (run exampleFiles exampleRandom ''u.txt'' ''t.txt'' ''out.csv'' (Some (Finite (1 / 2))))))))
       [(''domains'', DOMAIN), (''phylums'', PHYLUM), (''classes'', CLASS), (''orders'', ORDER),
        (''families'', FAMILY), (''genera'', GENERA), (''species'', SPECIES),
        (''subspecies'', SUBSPECIES)]"
proof -
  have run: "run exampleFiles exampleRandom ''u.txt'' ''t.txt'' ''out.csv'' (Some (Finite (1 / 2))) =
    Inr (projr (run exampleFiles exampleRandom ''u.txt'' ''t.txt'' ''out.csv'' (Some (Finite (1 / 2)))))"
    by code_simp
  show ?thesis by (rule distinct_count_correct[OF run refl])
qed

subsection \<open>The boundary rate\<close>

lemma readLoop_boundary:
  "readLoop random translatedFile st untranslatedFile = Inr st' \<Longrightarrow> \<forall>k. random k \<le> 1 \<Longrightarrow>
   i < length (samples st) \<Longrightarrow> rate (samples st ! i) = Finite 1 \<Longrightarrow>
   numberOfReads (samples st' ! i) = numberOfReads (samples st ! i) + int (length untranslatedFile)"
proof (induction untranslatedFile arbitrary: st)
  case Nil
  then show ?case by simp
next
  case (Cons l untranslatedFile)
  from Cons.prems(1) obtain st1 where s1: "readStep random translatedFile st l = Inr st1"
    and r: "readLoop random translatedFile st1 untranslatedFile = Inr st'"
    by (auto split: sum.splits)
  from s1 obtain rk where ss: "samples st1 = map (operate (random (drawn st)) rk) (samples st)"
    by (rule readStep_cases)
  from Cons.prems(2,4) have inc: "included (random (drawn st)) (samples st ! i)"
    by (simp add: included_def)
  from ss Cons.prems(3,4) have i1: "i < length (samples st1)" and r1: "rate (samples st1 ! i) = Finite 1"
    by (simp_all add: rate_operate)
  from ss Cons.prems(3) inc
  have "numberOfReads (samples st1 ! i) = numberOfReads (samples st ! i) + 1"
    by (simp add: numberOfReads_operate)
  with Cons.IH[OF r Cons.prems(2) i1 r1] show ?case by simp
qed

lemma initializeSamples_one: "initializeSamples (Finite 1) = Inr [newSample (Finite 1)]"
  by code_simp

text \<open>
  C8 (read count at the rate 1.0). With draws in [0,1), a sample whose rate is 1 includes
  every read: after a pass that returns, its read count has grown by the number of lines
  of the untranslated file. With the rate 1.0 \<^verbatim>\<open>run\<close> builds exactly one sample, at the
  rate 1, whose final read count is the number of lines of the untranslated file.
\<close>

theorem boundary_rate:
  assumes "\<forall>k. 0 \<le> random k \<and> random k < 1"
  shows "(\<forall>st' i. generateRarefaction random untranslatedFile translatedFile ss = Inr st' \<and>
             i < length ss \<and> rate (ss ! i) = Finite 1 \<longrightarrow>
             numberOfReads (samples st' ! i) = numberOfReads (ss ! i) + int (length untranslatedFile)) \<and>
         initializeSamples (Finite 1) = Inr [newSample (Finite 1)] \<and>
         (\<forall>out. run fs random untranslatedLocation translatedLocation outputLocation (Some (Finite 1)) = Inr out \<longrightarrow>
            length (finalSamples out) = 1 \<and> rate (finalSamples out ! 0) = Finite 1 \<and>
            numberOfReads (finalSamples out ! 0) = int (length (the (fs untranslatedLocation))))"
proof (intro conjI allI impI)
  from assms have le: "\<forall>k. random k \<le> 1" by (simp add: less_imp_le)
  show "initializeSamples (Finite 1) = Inr [newSample (Finite 1)]" by (rule initializeSamples_one)
  {
    fix st' i
    assume "generateRarefaction random untranslatedFile translatedFile ss = Inr st' \<and>
             i < length ss \<and> rate (ss ! i) = Finite 1"
    then show "numberOfReads (samples st' ! i) = numberOfReads (ss ! i) + int (length untranslatedFile)"
      using readLoop_boundary[of random translatedFile "\<lparr>samples = ss, translatedPos = 0, drawn = 0\<rparr>"
          untranslatedFile st' i] le
      by (simp add: generateRarefaction_def)
  }
  note first = this
  fix out
  assume "run fs random untranslatedLocation translatedLocation outputLocation (Some (Finite 1)) = Inr out"
  from run_Inr[OF this] obtain st where
    g: "generateRarefaction random (the (fs untranslatedLocation)) (the (fs translatedLocation)) [newSample (Finite 1)] = Inr st"
    and fin: "finalSamples out = samples st"
    by (auto simp: optionalRate_def initializeSamples_one)
  from generateRarefaction_rates[OF g] have rates: "map rate (samples st) = [Finite 1]"
    by (simp add: newSample_def)
  then have len: "length (samples st) = 1" by (metis length_map length_Cons list.size(3) One_nat_def)
  with fin show "length (finalSamples out) = 1" by simp
  from rates len show "rate (finalSamples out ! 0) = Finite 1"
    unfolding fin by (cases "samples st") auto
  from readLoop_boundary[of random "the (fs translatedLocation)" "\<lparr>samples = [newSample (Finite 1)], translatedPos = 0, drawn = 0\<rparr>"
          "the (fs untranslatedLocation)" st 0] g le
  show "numberOfReads (finalSamples out ! 0) = int (length (the (fs untranslatedLocation)))"
    unfolding fin by (simp add: generateRarefaction_def newSample_def)
qed

theorem boundary_rate_witness:
  "length (finalSamples (projr (run exampleFiles exampleRandom ''u.txt'' ''t.txt'' ''out.csv'' (Some (Finite 1))))) = 1 \<and>
   numberOfReads (finalSamples (projr (run exampleFiles exampleRandom ''u.txt'' ''t.txt'' ''out.csv'' (Some (Finite 1)))) ! 0) =
     int (length (the (exampleFiles ''u.txt'')))"
proof -
  have draws: "\<forall>k. 0 \<le> exampleRandom k \<and> exampleRandom k < 1"
    by (simp add: exampleRandom_def)
  have run: "run exampleFiles exampleRandom ''u.txt'' ''t.txt'' ''out.csv'' (Some (Finite 1)) =
    Inr (projr (run exampleFiles exampleRandom ''u.txt'' ''t.txt'' ''out.csv'' (Some (Finite 1))))"
    by code_simp
  from boundary_rate[OF draws, THEN conjunct2, THEN conjunct2, rule_format, OF run]
  show ?thesis by blast
qed

end
